theory Spec2Isabelle
  imports Complex_Main "HOL-Library.Word" "HOL-Library.Multiset" "HOL-Library.Product_Lexorder"
begin

unbundle bit_operations_syntax

section \<open>DALS: approximate local changes and the delay reducer (dals.cpp)\<close>

text \<open>
  The development follows \<^verbatim>\<open>src/src/dals.cpp\<close>: the class \<^verbatim>\<open>ALC\<close> (constructor,
  \<^verbatim>\<open>Do\<close>, \<^verbatim>\<open>Recover\<close>) and the class \<^verbatim>\<open>DALS\<close> (\<^verbatim>\<open>EstSubPairError\<close>,
  \<^verbatim>\<open>CalcALCs\<close>, \<^verbatim>\<open>Run\<close>).  An \<^verbatim>\<open>ObjPtr\<close> is identified with the identifier
  of the object it points to.  A \<^verbatim>\<open>double\<close> that holds an error rate or a capacity is a
  rational number: every value the code computes is a quotient of two integers below
  \<open>2 ^ 31\<close>, one of the two constants of \<^verbatim>\<open>std::numeric_limits<double>\<close>, or
  \<open>1 - e\<close> for such a quotient \<open>e\<close>, and the comparisons the code makes
  (\<open>e > 0.5\<close>, \<open>e == 0\<close>, \<open>a < b\<close>) come out the same on the exact quotients.
\<close>

subsection \<open>Failures\<close>

text \<open>
  \<^verbatim>\<open>OutOfRange\<close> is the \<^verbatim>\<open>std::out_of_range\<close> thrown by \<^verbatim>\<open>.at()\<close> on a missing key.
  \<^verbatim>\<open>UndefinedBehaviour\<close> stands for an access the C++ standard leaves undefined:
  \<^verbatim>\<open>front()\<close> of an empty vector, an index past the end of a vector, the use of the
  null \<^verbatim>\<open>inv_\<close> pointer.  \<^verbatim>\<open>SignedOverflow\<close> is the overflow of an \<^verbatim>\<open>int\<close>;
  \<^verbatim>\<open>NotANumber\<close> is the quotient \<open>0.0 / 0.0\<close>.
\<close>

datatype error = OutOfRange | UndefinedBehaviour | SignedOverflow | NotANumber

fun foldM_err :: "('a \<Rightarrow> 's \<Rightarrow> error + 's) \<Rightarrow> 'a list \<Rightarrow> 's \<Rightarrow> error + 's" where
  "foldM_err f [] s = Inr s"
| "foldM_err f (x # xs) s = (case f x s of Inl e \<Rightarrow> Inl e | Inr s' \<Rightarrow> foldM_err f xs s')"

subsection \<open>The network and its primitives\<close>

type_synonym obj = nat

text \<open>
  A network holds its live objects and, for each object, the ordered list of its fan-ins
  and the list of its fan-outs.
\<close>

record ntk =
  objs :: "obj list"
  fanins :: "obj \<Rightarrow> obj list"
  fanouts :: "obj \<Rightarrow> obj list"

text \<open>
  Modelled from the spec: the network primitives of \<^verbatim>\<open>abc_plus.h\<close> and of ABC, which
  \<^verbatim>\<open>dals.cpp\<close> calls and whose code is not part of the sources.  Section 6 of the
  specification gives them as \<^verbatim>\<open>fanins(node)\<close>, \<^verbatim>\<open>fanouts(node)\<close> (ordered node lists),
  \<^verbatim>\<open>create_inverter(src)\<close> (a fresh node whose single fan-in is \<^verbatim>\<open>src\<close>),
  \<^verbatim>\<open>replace(old, new)\<close> (redirect every fan-out edge of \<^verbatim>\<open>old\<close> to \<^verbatim>\<open>new\<close>,
  preserving slot order), \<^verbatim>\<open>remove_all_fanins(node)\<close>, \<^verbatim>\<open>add_fanin(node, src)\<close> and
  \<^verbatim>\<open>delete_node(node)\<close>.  A fan-out list has one entry for each edge.
\<close>

definition ObjFanins :: "ntk \<Rightarrow> obj \<Rightarrow> obj list" where
  "ObjFanins n v = fanins n v"

definition ObjFanouts :: "ntk \<Rightarrow> obj \<Rightarrow> obj list" where
  "ObjFanouts n v = fanouts n v"

definition new_id :: "ntk \<Rightarrow> obj" where
  "new_id n = Suc (foldr max (objs n) 0)"

definition ObjCreateInv :: "ntk \<Rightarrow> obj \<Rightarrow> obj \<times> ntk" where
  "ObjCreateInv n src =
     (let i = new_id n in
      (i, n\<lparr>objs := objs n @ [i],
            fanins := (fanins n)(i := [src]),
            fanouts := (fanouts n)(src := fanouts n src @ [i])\<rparr>))"

definition ObjReplace :: "ntk \<Rightarrow> obj \<Rightarrow> obj \<Rightarrow> ntk" where
  "ObjReplace n old new =
     n\<lparr>fanins := (\<lambda>f. if f \<in> set (fanouts n old)
                       then map (\<lambda>x. if x = old then new else x) (fanins n f)
                       else fanins n f),
       fanouts := (fanouts n)(new := fanouts n new @ fanouts n old, old := [])\<rparr>"

definition Abc_ObjRemoveFanins :: "ntk \<Rightarrow> obj \<Rightarrow> ntk" where
  "Abc_ObjRemoveFanins n f =
     n\<lparr>fanins := (fanins n)(f := []),
       fanouts := (\<lambda>g. removeAll f (fanouts n g))\<rparr>"

definition Abc_ObjAddFanin :: "ntk \<Rightarrow> obj \<Rightarrow> obj \<Rightarrow> ntk" where
  "Abc_ObjAddFanin n f g =
     n\<lparr>fanins := (fanins n)(f := fanins n f @ [g]),
       fanouts := (fanouts n)(g := fanouts n g @ [f])\<rparr>"

definition ObjDelete :: "ntk \<Rightarrow> obj \<Rightarrow> ntk" where
  "ObjDelete n i =
     n\<lparr>objs := removeAll i (objs n),
       fanins := (\<lambda>f. if f = i then [] else removeAll i (fanins n f)),
       fanouts := (\<lambda>g. if g = i then [] else removeAll i (fanouts n g))\<rparr>"

subsection \<open>Class ALC\<close>

text \<open>
  The fields of \<^verbatim>\<open>ALC\<close>, the first four under the names of their getters:
  \<^verbatim>\<open>error_\<close>, \<^verbatim>\<open>is_complemented_\<close>, \<^verbatim>\<open>target_\<close>, \<^verbatim>\<open>substitute_\<close>, \<^verbatim>\<open>inv_\<close>
  (\<open>None\<close> is the null pointer), \<^verbatim>\<open>target_fan_outs_\<close> and
  \<^verbatim>\<open>target_fan_out_fan_ins_\<close>.
\<close>

record ALC =
  GetError :: rat
  IsComplemented :: bool
  GetTarget :: obj
  GetSubstitute :: obj
  inv_node :: "obj option"
  target_fan_outs :: "obj list"
  target_fan_out_fan_ins :: "obj \<rightharpoonup> obj list"

definition SetError :: "ALC \<Rightarrow> rat \<Rightarrow> ALC" where
  "SetError a e = a\<lparr>GetError := e\<rparr>"

text \<open>
  The constructor (lines 92 to 100).  \<^verbatim>\<open>target_fan_out_fan_ins_[fan_out].push_back(fan_in)\<close>
  appends to the entry of \<^verbatim>\<open>fan_out\<close>, creating an empty one first when there is none.
\<close>

definition push_fan_in :: "obj \<Rightarrow> ALC \<Rightarrow> obj \<Rightarrow> ALC" where
  "push_fan_in fan_out a fan_in =
     a\<lparr>target_fan_out_fan_ins :=
         (target_fan_out_fan_ins a)
           (fan_out \<mapsto> (case target_fan_out_fan_ins a fan_out of None \<Rightarrow> [] | Some l \<Rightarrow> l) @ [fan_in])\<rparr>"

definition snapshot_fan_out :: "ntk \<Rightarrow> ALC \<Rightarrow> obj \<Rightarrow> ALC" where
  "snapshot_fan_out n a fan_out =
     foldl (push_fan_in fan_out)
       (a\<lparr>target_fan_outs := target_fan_outs a @ [fan_out]\<rparr>)
       (ObjFanins n fan_out)"

definition ALC_new :: "ntk \<Rightarrow> obj \<Rightarrow> obj \<Rightarrow> bool \<Rightarrow> rat \<Rightarrow> ALC" where
  "ALC_new n t s is_complemented err =
     foldl (snapshot_fan_out n)
       \<lparr>GetError = err, IsComplemented = is_complemented, GetTarget = t, GetSubstitute = s,
        inv_node = None, target_fan_outs = [], target_fan_out_fan_ins = Map.empty\<rparr>
       (ObjFanouts n t)"

text \<open>\<^verbatim>\<open>ALC::Do\<close> (lines 52 to 58): the change and the network, both updated.\<close>

definition Do :: "ALC \<Rightarrow> ntk \<Rightarrow> ALC \<times> ntk" where
  "Do a n =
     (if IsComplemented a
      then (case ObjCreateInv n (GetSubstitute a) of
              (i, n1) \<Rightarrow> (a\<lparr>inv_node := Some i\<rparr>, ObjReplace n1 (GetTarget a) i))
      else (a, ObjReplace n (GetTarget a) (GetSubstitute a)))"

text \<open>\<^verbatim>\<open>ALC::Recover\<close> (lines 71 to 77).\<close>

definition restore_fan_out :: "ALC \<Rightarrow> obj \<Rightarrow> ntk \<Rightarrow> error + ntk" where
  "restore_fan_out a fan_out n =
     (case target_fan_out_fan_ins a fan_out of
        None \<Rightarrow> Inl OutOfRange
      | Some l \<Rightarrow> Inr (foldl (\<lambda>m fan_in. Abc_ObjAddFanin m fan_out fan_in)
                         (Abc_ObjRemoveFanins n fan_out) l))"

definition Recover :: "ALC \<Rightarrow> ntk \<Rightarrow> error + ntk" where
  "Recover a n =
     (case (if IsComplemented a
            then (case inv_node a of
                    None \<Rightarrow> Inl UndefinedBehaviour
                  | Some i \<Rightarrow> Inr (ObjDelete n i))
            else Inr n) of
        Inl e \<Rightarrow> Inl e
      | Inr n1 \<Rightarrow> foldM_err (restore_fan_out a) (target_fan_outs a) n1)"

subsection \<open>Class DALS: state\<close>

record time_info =
  arrival_time :: int
  required_time :: int
  slack :: int

record dals =
  target_ntk :: ntk
  approx_ntk :: ntk
  sim_64_cycles :: int
  truth_vec :: "obj \<rightharpoonup> 64 word list"
  cand_alcs :: "obj \<rightharpoonup> ALC list"
  opt_alc :: "obj \<rightharpoonup> ALC"

subsection \<open>EstSubPairError\<close>

fun count_bits :: "nat \<Rightarrow> 64 word \<Rightarrow> nat" where
  "count_bits 0 w = 0"
| "count_bits (Suc n) w = (if bit w n then 1 else 0) + count_bits n w"

text \<open>\<^verbatim>\<open>std::bitset<64>(w).count()\<close>\<close>

definition bitset64_count :: "64 word \<Rightarrow> nat" where
  "bitset64_count w = count_bits 64 w"

definition INT_MAX :: int where
  "INT_MAX = 2147483647"

text \<open>
  The loop of lines 198 and 199, over the indices \<open>0, \<dots>, sim_64_cycles_ - 1\<close>.  The
  counter is an unbounded integer here; the caller checks the bound of an \<^verbatim>\<open>int\<close>.
\<close>

fun err_cnt_loop ::
  "64 word list option \<Rightarrow> 64 word list option \<Rightarrow> nat list \<Rightarrow> int \<Rightarrow> error + int" where
  "err_cnt_loop ta tb [] err_cnt = Inr err_cnt"
| "err_cnt_loop ta tb (i # is) err_cnt =
     (case ta of
        None \<Rightarrow> Inl OutOfRange
      | Some a \<Rightarrow>
          (case tb of
             None \<Rightarrow> Inl OutOfRange
           | Some b \<Rightarrow>
               if i < length a \<and> i < length b
               then err_cnt_loop ta tb is (err_cnt + int (bitset64_count (a ! i XOR b ! i)))
               else Inl UndefinedBehaviour))"

text \<open>
  Lines 196 to 201.  The counter never exceeds \<open>64 * sim_64_cycles_\<close>, so an \<^verbatim>\<open>int\<close>
  overflows in the function exactly when that product does.  With no cycle the
  quotient is \<open>0.0 / 0.0\<close>.
\<close>

definition EstSubPairError :: "dals \<Rightarrow> obj \<Rightarrow> obj \<Rightarrow> error + rat" where
  "EstSubPairError st t s =
     (case err_cnt_loop (truth_vec st t) (truth_vec st s) [0..<nat (sim_64_cycles st)] 0 of
        Inl e \<Rightarrow> Inl e
      | Inr err_cnt \<Rightarrow>
          if 64 * sim_64_cycles st > INT_MAX then Inl SignedOverflow
          else if sim_64_cycles st = 0 then Inl NotANumber
          else Inr (of_int err_cnt / of_int (64 * sim_64_cycles st)))"

subsection \<open>Collaborators\<close>

text \<open>
  \<^verbatim>\<open>dals.cpp\<close> calls the bit-parallel simulator, the static timing analysis, the
  max-flow solver and queries of the network library; their code is not part of the
  sources.  They are parameters of the model, collected in one record under their
  names in the code.  \<^verbatim>\<open>MinCut\<close> receives the number of vertices and the arcs added
  with \<^verbatim>\<open>AddEdge\<close>, in the order of the calls, and returns the tails \<^verbatim>\<open>edge.u\<close> of the
  cut arcs.  \<^verbatim>\<open>ObjID\<close> and \<^verbatim>\<open>NtkObjbyID\<close> are the identity, an object being its
  identifier.  The last three fields are what the standard leaves open in the sorts
  of the C++ library (see below).
\<close>

type_synonym edge = "nat \<times> nat \<times> rat"

record collab =
  SimTruthVec :: "ntk \<Rightarrow> int \<Rightarrow> (obj \<rightharpoonup> 64 word list)"
  CalcSlack :: "ntk \<Rightarrow> (obj \<rightharpoonup> time_info)"
  NtkTopoSortPINode :: "ntk \<Rightarrow> obj list"
  SimER :: "ntk \<Rightarrow> ntk \<Rightarrow> rat"
  ObjIsPI :: "ntk \<Rightarrow> obj \<Rightarrow> bool"
  ObjIsNode :: "ntk \<Rightarrow> obj \<Rightarrow> bool"
  ObjIsPONode :: "ntk \<Rightarrow> obj \<Rightarrow> bool"
  Abc_NtkObjNumMax :: "ntk \<Rightarrow> nat"
  GetCriticalGraph :: "ntk \<Rightarrow> (nat \<times> nat list) list"
  MinCut :: "nat \<Rightarrow> edge list \<Rightarrow> nat \<Rightarrow> nat \<Rightarrow> nat list"
  sort_ties :: "ALC list \<Rightarrow> ALC \<Rightarrow> nat"
  partial_sort_ties :: "ALC list \<Rightarrow> ALC \<Rightarrow> nat"
  partial_sort_rest :: "ALC list \<Rightarrow> ALC \<Rightarrow> nat"

subsection \<open>Sorting\<close>

text \<open>
  \<^verbatim>\<open>std::sort\<close> with the comparison \<^verbatim>\<open>a.GetError() < b.GetError()\<close> leaves the vector
  ascending by error.  The standard does not fix the order of elements of equal error:
  it depends on the algorithm of the library.  That order is the parameter
  \<open>sort_ties\<close>, a rank of each element that may depend on the vector: the result is
  ascending by error and, among equal errors, by rank (elements of equal error and
  rank keep their order).  Every ascending arrangement of a vector is the result for
  some rank.
\<close>

definition std_sort :: "'a collab_scheme \<Rightarrow> ALC list \<Rightarrow> ALC list" where
  "std_sort env xs = sort_key (\<lambda>a. (GetError a, sort_ties env xs a)) xs"

text \<open>
  \<^verbatim>\<open>std::partial_sort(first, first + k, last, comp)\<close> rearranges the whole range: the
  \<open>k\<close> smallest elements come first, ascending, and the others follow in an order the
  standard does not fix.  No element is removed.  The order of equal errors among the
  first \<open>k\<close>, and which of several elements of the same error are among them, is the
  parameter \<open>partial_sort_ties\<close>; the order of the other elements is the parameter
  \<open>partial_sort_rest\<close>.
\<close>

definition std_partial_sort :: "'a collab_scheme \<Rightarrow> nat \<Rightarrow> ALC list \<Rightarrow> ALC list" where
  "std_partial_sort env k xs =
     (let ys = sort_key (\<lambda>a. (GetError a, partial_sort_ties env xs a)) xs
      in take k ys @ sort_key (partial_sort_rest env xs) (drop k ys))"

subsection \<open>CalcALCs\<close>

text \<open>\<^verbatim>\<open>cand_alcs_[t_node]\<close>: the entry of \<^verbatim>\<open>t_node\<close>, empty when there is none.\<close>

definition cand_list :: "dals \<Rightarrow> obj \<Rightarrow> ALC list" where
  "cand_list st t_node = (case cand_alcs st t_node of None \<Rightarrow> [] | Some l \<Rightarrow> l)"

definition emplace_back_cand :: "dals \<Rightarrow> obj \<Rightarrow> ALC \<Rightarrow> dals" where
  "emplace_back_cand st t_node a =
     st\<lparr>cand_alcs := (cand_alcs st)(t_node \<mapsto> cand_list st t_node @ [a])\<rparr>"

text \<open>The body of the loop over \<^verbatim>\<open>s_nodes\<close> (lines 151 to 157).\<close>

definition consider_substitute ::
  "(obj \<rightharpoonup> time_info) \<Rightarrow> obj \<Rightarrow> obj \<Rightarrow> dals \<Rightarrow> error + dals" where
  "consider_substitute time_info t_node s_node st =
     (if t_node = s_node then Inr st
      else
        (case time_info s_node of
           None \<Rightarrow> Inl OutOfRange
         | Some ts \<Rightarrow>
             (case time_info t_node of
                None \<Rightarrow> Inl OutOfRange
              | Some tt \<Rightarrow>
                  if arrival_time ts < arrival_time tt
                  then
                    (case EstSubPairError st t_node s_node of
                       Inl e \<Rightarrow> Inl e
                     | Inr est_error \<Rightarrow>
                         if arrival_time ts < arrival_time tt - 1
                         then Inr (emplace_back_cand st t_node
                                (ALC_new (approx_ntk st) t_node s_node (est_error > 1 / 2)
                                   (min est_error (1 - est_error))))
                         else Inr (emplace_back_cand st t_node
                                (ALC_new (approx_ntk st) t_node s_node False est_error)))
                  else Inr st)))"

text \<open>Lines 158 to 167.\<close>

definition rank_cands :: "'a collab_scheme \<Rightarrow> nat \<Rightarrow> obj \<Rightarrow> dals \<Rightarrow> dals" where
  "rank_cands env top_k t_node st =
     st\<lparr>cand_alcs := (cand_alcs st)
          (t_node \<mapsto> (if length (cand_list st t_node) > top_k
                       then std_partial_sort env top_k (cand_list st t_node)
                       else std_sort env (cand_list st t_node)))\<rparr>"

text \<open>The body of the first loop over \<^verbatim>\<open>target_nodes\<close> (lines 148 to 168).\<close>

definition calc_cands ::
  "'a collab_scheme \<Rightarrow> (obj \<rightharpoonup> time_info) \<Rightarrow> obj list \<Rightarrow> nat \<Rightarrow> obj \<Rightarrow> dals
     \<Rightarrow> error + dals" where
  "calc_cands env time_info s_nodes top_k t_node st =
     (case foldM_err (consider_substitute time_info t_node) s_nodes st of
        Inl e \<Rightarrow> Inl e
      | Inr st' \<Rightarrow> Inr (rank_cands env top_k t_node st'))"

text \<open>
  The loop of lines 179 to 185 over a copy of each candidate: the copy is applied, its
  error is set to the simulated error rate, it is recovered and pushed on \<^verbatim>\<open>k_alcs\<close>.
\<close>

fun refine_loop ::
  "'a collab_scheme \<Rightarrow> nat \<Rightarrow> ALC list \<Rightarrow> ALC list \<Rightarrow> dals \<Rightarrow> error + (ALC list \<times> dals)" where
  "refine_loop env top_k [] k_alcs st = Inr (k_alcs, st)"
| "refine_loop env top_k (alc # rest) k_alcs st =
     (if length k_alcs = top_k then Inr (k_alcs, st)
      else
        (case Do alc (approx_ntk st) of
           (alc1, n1) \<Rightarrow>
             (case Recover (SetError alc1 (SimER env (target_ntk st) n1)) n1 of
                Inl e \<Rightarrow> Inl e
              | Inr n2 \<Rightarrow>
                  refine_loop env top_k rest
                    (k_alcs @ [SetError alc1 (SimER env (target_ntk st) n1)])
                    (st\<lparr>approx_ntk := n2\<rparr>))))"

text \<open>
  \<^verbatim>\<open>opt_alc_.emplace(t_node, k_alcs.front())\<close>: \<^verbatim>\<open>front()\<close> of an empty vector is
  undefined; \<^verbatim>\<open>emplace\<close> inserts only when the map has no entry for the key.
\<close>

definition emplace_opt :: "dals \<Rightarrow> obj \<Rightarrow> ALC list \<Rightarrow> error + dals" where
  "emplace_opt st t_node k_alcs =
     (case k_alcs of
        [] \<Rightarrow> Inl UndefinedBehaviour
      | front # _ \<Rightarrow>
          (case opt_alc st t_node of
             None \<Rightarrow> Inr (st\<lparr>opt_alc := (opt_alc st)(t_node \<mapsto> front)\<rparr>)
           | Some _ \<Rightarrow> Inr st))"

text \<open>The body of the second loop over \<^verbatim>\<open>target_nodes\<close> (lines 176 to 191).\<close>

definition calc_opt :: "'a collab_scheme \<Rightarrow> nat \<Rightarrow> obj \<Rightarrow> dals \<Rightarrow> error + dals" where
  "calc_opt env top_k t_node st =
     (case refine_loop env top_k (cand_list st t_node) [] st of
        Inl e \<Rightarrow> Inl e
      | Inr (k_alcs, st') \<Rightarrow> emplace_opt st' t_node (std_sort env k_alcs))"

definition emplace_empty :: "dals \<Rightarrow> obj \<Rightarrow> dals" where
  "emplace_empty st t_node =
     (case cand_alcs st t_node of
        None \<Rightarrow> st\<lparr>cand_alcs := (cand_alcs st)(t_node \<mapsto> [])\<rparr>
      | Some _ \<Rightarrow> st)"

text \<open>
  \<^verbatim>\<open>DALS::CalcALCs\<close> (lines 130 to 194), without the progress display.  \<^verbatim>\<open>top_k\<close> is
  compared with the size of a vector, as an unsigned number; it is a natural number
  here (\<^verbatim>\<open>Run\<close> passes 3).
\<close>

definition CalcALCs :: "'a collab_scheme \<Rightarrow> obj list \<Rightarrow> nat \<Rightarrow> dals \<Rightarrow> error + dals" where
  "CalcALCs env target_nodes top_k st =
     (let st1 = st\<lparr>cand_alcs := Map.empty\<rparr>;
          st2 = st1\<lparr>truth_vec := SimTruthVec env (approx_ntk st1) (sim_64_cycles st1)\<rparr>;
          st3 = foldl emplace_empty st2 target_nodes;
          time_info = CalcSlack env (approx_ntk st3);
          s_nodes = NtkTopoSortPINode env (approx_ntk st3)
      in (case foldM_err (calc_cands env time_info s_nodes top_k) target_nodes st3 of
            Inl e \<Rightarrow> Inl e
          | Inr st4 \<Rightarrow> foldM_err (calc_opt env top_k) target_nodes st4))"

subsection \<open>Run\<close>

text \<open>
  \<^verbatim>\<open>std::numeric_limits<double>::max()\<close> and \<^verbatim>\<open>std::numeric_limits<double>::min()\<close>
  of an IEEE 754 double: \<open>(2 ^ 53 - 1) * 2 ^ 971\<close> and \<open>2 ^ -1022\<close>.
\<close>

definition DBL_MAX :: rat where
  "DBL_MAX = (2 ^ 53 - 1) * 2 ^ 971"

definition DBL_MIN :: rat where
  "DBL_MIN = 1 / 2 ^ 1022"

text \<open>
  The finite values of an IEEE 754 double are the numbers \<open>m * 2 ^ e\<close> with
  \<open>\<bar>m\<bar> < 2 ^ 53\<close> and \<open>- 1074 \<le> e \<le> 971\<close>; the model of a \<^verbatim>\<open>double\<close> is the rational
  number, without rounding.
\<close>

definition binary64 :: "int \<Rightarrow> int \<Rightarrow> bool" where
  "binary64 m e = (\<bar>m\<bar> < 2 ^ 53 \<and> - 1074 \<le> e \<and> e \<le> 971)"

definition binary64_value :: "int \<Rightarrow> int \<Rightarrow> rat" where
  "binary64_value m e = (if 0 \<le> e then of_int m * 2 ^ nat e else of_int m / 2 ^ nat (- e))"

text \<open>Lines 211 to 215: the objects of slack 0, and the nodes among them.\<close>

definition collect_slack_0 ::
  "(obj \<rightharpoonup> time_info) \<Rightarrow> obj \<Rightarrow> obj list \<Rightarrow> error + obj list" where
  "collect_slack_0 time_info v pis_nodes_0 =
     (case time_info v of
        None \<Rightarrow> Inl OutOfRange
      | Some ti \<Rightarrow> if slack ti = 0 then Inr (pis_nodes_0 @ [v]) else Inr pis_nodes_0)"

text \<open>
  The body of the loop of lines 223 to 235: the arcs \<^verbatim>\<open>AddEdge\<close> adds for one object
  of slack 0, with \<open>source = 0\<close> and \<open>sink = N - 1\<close>.
\<close>

definition node_arcs :: "'a collab_scheme \<Rightarrow> dals \<Rightarrow> nat \<Rightarrow> obj \<Rightarrow> error + edge list" where
  "node_arcs env st N obj_0 =
     (let u = obj_0 in
      if ObjIsPI env (approx_ntk st) obj_0 then Inr [(0, u, DBL_MAX)]
      else
        (case opt_alc st obj_0 of
           None \<Rightarrow> Inl OutOfRange
         | Some a \<Rightarrow>
             Inr ((if GetError a = 0 then [(u, u + N, DBL_MIN)] else [(u, u + N, GetError a)])
                  @ (if ObjIsPONode env (approx_ntk st) obj_0
                     then [(u + N, N - 1, DBL_MAX)] else []))))"

definition add_node_arcs ::
  "'a collab_scheme \<Rightarrow> dals \<Rightarrow> nat \<Rightarrow> obj \<Rightarrow> edge list \<Rightarrow> error + edge list" where
  "add_node_arcs env st N obj_0 arcs =
     (case node_arcs env st N obj_0 of Inl e \<Rightarrow> Inl e | Inr new \<Rightarrow> Inr (arcs @ new))"

text \<open>Lines 237 to 244: the arcs of the critical graph.\<close>

definition critical_arcs :: "'a collab_scheme \<Rightarrow> ntk \<Rightarrow> nat \<Rightarrow> edge list" where
  "critical_arcs env n N =
     concat (map (\<lambda>(u, vs).
               map (\<lambda>v. if ObjIsPI env n u then (u, v, DBL_MAX) else (u + N, v, DBL_MAX)) vs)
             (GetCriticalGraph env n))"

definition flow_arcs :: "'a collab_scheme \<Rightarrow> dals \<Rightarrow> nat \<Rightarrow> obj list \<Rightarrow> error + edge list" where
  "flow_arcs env st N pis_nodes_0 =
     (case foldM_err (add_node_arcs env st N) pis_nodes_0 [] of
        Inl e \<Rightarrow> Inl e
      | Inr arcs \<Rightarrow> Inr (arcs @ critical_arcs env (approx_ntk st) N))"

text \<open>Line 262: \<^verbatim>\<open>opt_alc_.at(obj).Do()\<close> for the tail \<^verbatim>\<open>edge.u\<close> of a cut arc.\<close>

definition apply_cut :: "nat \<Rightarrow> dals \<Rightarrow> error + dals" where
  "apply_cut u st =
     (case opt_alc st u of
        None \<Rightarrow> Inl OutOfRange
      | Some a \<Rightarrow>
          (case Do a (approx_ntk st) of
             (a', n') \<Rightarrow> Inr (st\<lparr>approx_ntk := n', opt_alc := (opt_alc st)(u \<mapsto> a')\<rparr>)))"

text \<open>
  One pass through the body of the loop of \<^verbatim>\<open>DALS::Run\<close> (lines 207 to 265), without
  the output: the new error rate and the new state.
\<close>

definition Run_round :: "'a collab_scheme \<Rightarrow> dals \<Rightarrow> error + (rat \<times> dals)" where
  "Run_round env st =
     (let time_info = CalcSlack env (approx_ntk st) in
      case foldM_err (collect_slack_0 time_info) (NtkTopoSortPINode env (approx_ntk st)) [] of
        Inl e \<Rightarrow> Inl e
      | Inr pis_nodes_0 \<Rightarrow>
          (case CalcALCs env (filter (ObjIsNode env (approx_ntk st)) pis_nodes_0) 3 st of
             Inl e \<Rightarrow> Inl e
           | Inr st1 \<Rightarrow>
               (let N = Abc_NtkObjNumMax env (approx_ntk st1) + 1 in
                case flow_arcs env st1 N pis_nodes_0 of
                  Inl e \<Rightarrow> Inl e
                | Inr arcs \<Rightarrow>
                    (case foldM_err apply_cut (MinCut env (N * 2) arcs 0 (N - 1)) st1 of
                       Inl e \<Rightarrow> Inl e
                     | Inr st2 \<Rightarrow> Inr (SimER env (target_ntk st2) (approx_ntk st2), st2)))))"

text \<open>
  The loop of \<^verbatim>\<open>DALS::Run\<close> (line 206).  It need not terminate: the value \<open>None\<close> is
  a run that never returns.  A failure of a round ends the run.
\<close>

partial_function (option) Run_loop ::
  "'a collab_scheme \<Rightarrow> rat \<Rightarrow> rat \<Rightarrow> dals \<Rightarrow> (error + rat \<times> dals) option" where
  "Run_loop env err_constraint err st =
     (if err < err_constraint
      then (case Run_round env st of
              Inl e \<Rightarrow> Some (Inl e)
            | Inr r \<Rightarrow> Run_loop env err_constraint (fst r) (snd r))
      else Some (Inr (err, st)))"

definition Run :: "'a collab_scheme \<Rightarrow> rat \<Rightarrow> dals \<Rightarrow> (error + rat \<times> dals) option" where
  "Run env err_constraint st = Run_loop env err_constraint 0 st"

subsection \<open>Predicates of the statements\<close>

text \<open>
  The test of line 151: \<^verbatim>\<open>s_node\<close> is another object than \<^verbatim>\<open>t_node\<close> and arrives
  strictly earlier.
\<close>

definition passes_filter :: "(obj \<rightharpoonup> time_info) \<Rightarrow> obj \<Rightarrow> obj \<Rightarrow> bool" where
  "passes_filter time_info t s =
     (t \<noteq> s \<and>
      (case time_info s of
         None \<Rightarrow> False
       | Some ts \<Rightarrow> (case time_info t of None \<Rightarrow> False | Some tt \<Rightarrow> arrival_time ts < arrival_time tt)))"

text \<open>
  What lines 151 to 157 establish for the candidate \<open>a\<close> they append to the list of
  the target \<open>t\<close>.
\<close>

definition cand_ok :: "(obj \<rightharpoonup> time_info) \<Rightarrow> dals \<Rightarrow> obj \<Rightarrow> ALC \<Rightarrow> bool" where
  "cand_ok time_info st t a =
     (GetTarget a = t \<and> t \<noteq> GetSubstitute a \<and>
      (\<exists>ts tt est.
         time_info (GetSubstitute a) = Some ts \<and> time_info t = Some tt \<and>
         EstSubPairError st t (GetSubstitute a) = Inr est \<and>
         arrival_time ts < arrival_time tt \<and>
         (if arrival_time ts < arrival_time tt - 1
          then IsComplemented a = (1 / 2 < est) \<and> GetError a = min est (1 - est)
          else \<not> IsComplemented a \<and> GetError a = est)))"

definition all_ok :: "(obj \<rightharpoonup> time_info) \<Rightarrow> obj list \<Rightarrow> dals \<Rightarrow> bool" where
  "all_ok ti ss st =
     (\<forall>t a. a \<in> set (cand_list st t) \<longrightarrow> cand_ok ti st t a \<and> GetSubstitute a \<in> set ss)"

text \<open>
  The first \<open>k\<close> entries of a list are ascending by error, and none of them has a
  larger error than a later entry.
\<close>

definition ranked :: "nat \<Rightarrow> ALC list \<Rightarrow> bool" where
  "ranked k l =
     (sorted (map GetError (take k l)) \<and>
      (\<forall>a \<in> set (take k l). \<forall>b \<in> set (drop k l). GetError a \<le> GetError b))"

text \<open>The parts of the state that the candidate loops, and the refinement loops, leave alone.\<close>

definition same_frame :: "dals \<Rightarrow> dals \<Rightarrow> bool" where
  "same_frame st st' =
     (truth_vec st' = truth_vec st \<and> sim_64_cycles st' = sim_64_cycles st
      \<and> approx_ntk st' = approx_ntk st \<and> target_ntk st' = target_ntk st
      \<and> opt_alc st' = opt_alc st)"

definition same_cands :: "dals \<Rightarrow> dals \<Rightarrow> bool" where
  "same_cands st st' =
     (cand_alcs st' = cand_alcs st \<and> truth_vec st' = truth_vec st
      \<and> sim_64_cycles st' = sim_64_cycles st \<and> target_ntk st' = target_ntk st)"

text \<open>
  A consistent network: an object outside the network has no fan-in, every fan-in is an
  object of the network, and the fan-out lists have one entry for each edge of the
  fan-in lists.
\<close>

definition ntk_wf :: "ntk \<Rightarrow> bool" where
  "ntk_wf n =
     ((\<forall>v. v \<notin> set (objs n) \<longrightarrow> fanins n v = [])
      \<and> (\<forall>v. set (fanins n v) \<subseteq> set (objs n))
      \<and> (\<forall>f g. count_list (fanouts n g) f = count_list (fanins n f) g))"

text \<open>
  \<^verbatim>\<open>Do\<close> followed by \<^verbatim>\<open>Recover\<close> of the same change, with nothing in between.
\<close>

definition Do_Recover :: "ALC \<Rightarrow> ntk \<Rightarrow> error + ntk" where
  "Do_Recover a n = (case Do a n of (a', n') \<Rightarrow> Recover a' n')"

text \<open>
  The simulator \<^verbatim>\<open>SimER\<close> is not part of the sources.  Section 4.A of the
  specification has it return the number of samples with a mismatch divided by the
  number of samples.  \<open>is_rate\<close> says that of a number, the number of samples being an
  \<^verbatim>\<open>int\<close>.
\<close>

definition is_rate :: "rat \<Rightarrow> bool" where
  "is_rate e = (\<exists>k n :: int. 0 \<le> k \<and> 0 < n \<and> n \<le> INT_MAX \<and> e = of_int k / of_int n)"
subsection \<open>An example network\<close>

text \<open>
  Two primary inputs 2 and 3, the node 4 with fan-ins 2 and 3, the node 5 with fan-ins
  4 and 3, and the primary output 6 driven by 5.  One simulation word per object;
  arrival times 0, 0, 1 and 2.  The state holds an entry of \<^verbatim>\<open>opt_alc_\<close> for the
  node 5, as an earlier round leaves one.  The sorts keep elements of equal error in
  their order, and \<^verbatim>\<open>std::partial_sort\<close> leaves the elements after the first \<open>k\<close> in
  the order of their substitutes, which on this example is the arrangement a selection
  with a heap of \<open>k\<close> elements produces.
\<close>

definition cand_triple :: "ALC \<Rightarrow> rat \<times> bool \<times> obj" where
  "cand_triple a = (GetError a, IsComplemented a, GetSubstitute a)"

definition cand_triples :: "error + dals \<Rightarrow> obj \<Rightarrow> error + (rat \<times> bool \<times> obj) list" where
  "cand_triples r t =
     (case r of Inl e \<Rightarrow> Inl e | Inr st \<Rightarrow> Inr (map cand_triple (cand_list st t)))"

definition ex_ntk :: ntk where
  "ex_ntk = \<lparr>objs = [2, 3, 4, 5, 6],
            fanins = (\<lambda>_. [])(4 := [2, 3], 5 := [4, 3], 6 := [5]),
            fanouts = (\<lambda>_. [])(2 := [4], 3 := [4, 5], 4 := [5], 5 := [6])\<rparr>"

definition ex_truth_vec :: "obj \<rightharpoonup> 64 word list" where
  "ex_truth_vec = [2 \<mapsto> [0xFFFFFFFFFFFF0000], 3 \<mapsto> [0x00000000000FFFFF],
                   4 \<mapsto> [0x00000000000F0000], 5 \<mapsto> [0x00000000000F0000]]"

definition ex_time_info :: "obj \<rightharpoonup> time_info" where
  "ex_time_info =
     [2 \<mapsto> \<lparr>arrival_time = 0, required_time = 0, slack = 0\<rparr>,
      3 \<mapsto> \<lparr>arrival_time = 0, required_time = 0, slack = 0\<rparr>,
      4 \<mapsto> \<lparr>arrival_time = 1, required_time = 1, slack = 0\<rparr>,
      5 \<mapsto> \<lparr>arrival_time = 2, required_time = 2, slack = 0\<rparr>]"

text \<open>
  The error rate of the example after a substitution, read off the fan-ins of the
  output and of the node 5: the output driven by the input 3, or the node 5 reading the
  input 3 twice, differs from the original on 16 of the 64 samples; the output driven by
  an inverter of the input 2 (the object 7) differs on 20.
\<close>

definition ex_SimER :: "ntk \<Rightarrow> ntk \<Rightarrow> rat" where
  "ex_SimER tgt apx =
     (if fanins apx 6 = [3] \<or> fanins apx 5 = [3, 3] then 1 / 4
      else if fanins apx 6 = [7] then 5 / 16
      else 0)"

definition ex_env :: collab where
  "ex_env = \<lparr>SimTruthVec = (\<lambda>n W. ex_truth_vec),
             CalcSlack = (\<lambda>n. ex_time_info),
             NtkTopoSortPINode = (\<lambda>n. [2, 3, 4, 5]),
             SimER = ex_SimER,
             ObjIsPI = (\<lambda>n v. v = 2 \<or> v = 3),
             ObjIsNode = (\<lambda>n v. v = 4 \<or> v = 5),
             ObjIsPONode = (\<lambda>n v. v = 5),
             Abc_NtkObjNumMax = (\<lambda>n. 7),
             GetCriticalGraph = (\<lambda>n. [(2, [4]), (3, [4]), (4, [5])]),
             MinCut = (\<lambda>nv arcs s t. [4]),
             sort_ties = (\<lambda>xs a. 0),
             partial_sort_ties = (\<lambda>xs a. 0),
             partial_sort_rest = (\<lambda>xs a. GetSubstitute a)\<rparr>"

definition ex_stale :: ALC where
  "ex_stale = \<lparr>GetError = 1 / 4, IsComplemented = False, GetTarget = 5, GetSubstitute = 3,
               inv_node = None, target_fan_outs = [6], target_fan_out_fan_ins = [6 \<mapsto> [5]]\<rparr>"

definition ex_dals :: dals where
  "ex_dals = \<lparr>target_ntk = ex_ntk, approx_ntk = ex_ntk, sim_64_cycles = 1,
              truth_vec = ex_truth_vec, cand_alcs = Map.empty, opt_alc = [5 \<mapsto> ex_stale]\<rparr>"

text \<open>
  The same network with other truth vectors: the input 2 and the nodes 4 and 5 have the
  same vector, so the substitutes 2 and 4 of the node 5 both have the estimated error 0.
  The error rates of \<open>ex_SimER\<close> agree with these vectors.  For the three candidates
  of the node 5, of errors 0, 1/4 and 0 in the order of enumeration,
  \<^verbatim>\<open>std::partial_sort\<close> with \<open>k = 2\<close> is taken to return the third, the first and the
  second, the arrangement a selection with a heap of two elements produces.
\<close>

definition ex_tie_vec :: "obj \<rightharpoonup> 64 word list" where
  "ex_tie_vec = [2 \<mapsto> [0x00000000000F0000], 3 \<mapsto> [0x00000000000FFFFF],
                 4 \<mapsto> [0x00000000000F0000], 5 \<mapsto> [0x00000000000F0000]]"

definition ex_tie_env :: collab where
  "ex_tie_env = ex_env\<lparr>SimTruthVec := (\<lambda>n W. ex_tie_vec),
                        partial_sort_ties := (\<lambda>xs a. if GetSubstitute a = 4 then 0 else 1)\<rparr>"

text \<open>
  The flow graph of the example after \<^verbatim>\<open>CalcALCs\<close>, with \<open>N = 8\<close> and the objects
  2, 3, 4 and 5 of slack 0.
\<close>

definition ex_flow :: "error + edge list" where
  "ex_flow =
     (case CalcALCs ex_env [4, 5] 2 ex_dals of
        Inl e \<Rightarrow> Inl e
      | Inr st' \<Rightarrow> flow_arcs ex_env st' 8 [2, 3, 4, 5])"

subsection \<open>A network with a node used twice by a fan-out\<close>

text \<open>
  Two primary inputs 2 and 3, the node 4 with fan-ins 2 and 3, the node 5 with fan-ins
  4 and 3, the node 6 with fan-ins 5 and 4, and the primary output 7 driven by 6.
  Applying the change that replaces the node 5 by the node 4, as a round of \<^verbatim>\<open>Run\<close>
  does with a change of its cut, gives \<open>ex_dup_committed\<close>: the node 6 then reads the
  node 4 twice, and the fan-out list of the node 4 names the node 6 twice.
\<close>

definition ex_dup_ntk :: ntk where
  "ex_dup_ntk = \<lparr>objs = [2, 3, 4, 5, 6, 7],
                fanins = (\<lambda>_. [])(4 := [2, 3], 5 := [4, 3], 6 := [5, 4], 7 := [6]),
                fanouts = (\<lambda>_. [])(2 := [4], 3 := [4, 5], 4 := [5, 6], 5 := [6], 6 := [7])\<rparr>"

definition ex_dup_committed :: ntk where
  "ex_dup_committed = snd (Do (ALC_new ex_dup_ntk 5 4 False 0) ex_dup_ntk)"

subsection \<open>A network with a constant node\<close>

text \<open>
  A primary input 2 that drives nothing, and a node 3 without fan-in, a constant, that
  drives the primary output 4.  Both arrive at time 0 and the maximum delay is 0, so
  both have slack 0, and no object arrives before the node 3.
\<close>

definition ex_const_ntk :: ntk where
  "ex_const_ntk = \<lparr>objs = [2, 3, 4], fanins = (\<lambda>_. [])(4 := [3]), fanouts = (\<lambda>_. [])(3 := [4])\<rparr>"

definition ex_const_time_info :: "obj \<rightharpoonup> time_info" where
  "ex_const_time_info =
     [2 \<mapsto> \<lparr>arrival_time = 0, required_time = 0, slack = 0\<rparr>,
      3 \<mapsto> \<lparr>arrival_time = 0, required_time = 0, slack = 0\<rparr>]"

definition ex_const_env :: collab where
  "ex_const_env = \<lparr>SimTruthVec = (\<lambda>n W. [2 \<mapsto> [0x0123456789ABCDEF], 3 \<mapsto> [0]]),
              CalcSlack = (\<lambda>n. ex_const_time_info),
              NtkTopoSortPINode = (\<lambda>n. [2, 3]),
              SimER = (\<lambda>tgt apx. 0),
              ObjIsPI = (\<lambda>n v. v = 2),
              ObjIsNode = (\<lambda>n v. v = 3),
              ObjIsPONode = (\<lambda>n v. v = 3),
              Abc_NtkObjNumMax = (\<lambda>n. 4),
              GetCriticalGraph = (\<lambda>n. []),
              MinCut = (\<lambda>nv arcs s t. []),
              sort_ties = (\<lambda>xs a. 0),
              partial_sort_ties = (\<lambda>xs a. 0),
              partial_sort_rest = (\<lambda>xs a. 0)\<rparr>"

definition ex_const_dals :: dals where
  "ex_const_dals = \<lparr>target_ntk = ex_const_ntk, approx_ntk = ex_const_ntk, sim_64_cycles = 1,
               truth_vec = Map.empty, cand_alcs = Map.empty, opt_alc = Map.empty\<rparr>"

subsection \<open>The loop of Run with a bound on the rounds\<close>

text \<open>
  The same loop, allowed at most \<open>n\<close> passes through its body: \<open>None\<close> when the
  loop test still holds after them.
\<close>

fun Run_fuel ::
  "nat \<Rightarrow> 'a collab_scheme \<Rightarrow> rat \<Rightarrow> rat \<Rightarrow> dals \<Rightarrow> (error + rat \<times> dals) option" where
  "Run_fuel 0 env err_constraint err st =
     (if err < err_constraint then None else Some (Inr (err, st)))"
| "Run_fuel (Suc n) env err_constraint err st =
     (if err < err_constraint
      then (case Run_round env st of
              Inl e \<Rightarrow> Some (Inl e)
            | Inr r \<Rightarrow> Run_fuel n env err_constraint (fst r) (snd r))
      else Some (Inr (err, st)))"

subsection \<open>A second example\<close>

text \<open>
  A primary input 2 that drives the primary output 3: there is no internal node, the
  critical graph has no arc, the flow graph has no path from the source to the sink, the
  cut is empty and the error rate stays 0.
\<close>

definition ex2_ntk :: ntk where
  "ex2_ntk = \<lparr>objs = [2, 3], fanins = (\<lambda>_. [])(3 := [2]), fanouts = (\<lambda>_. [])(2 := [3])\<rparr>"

definition ex2_env :: collab where
  "ex2_env = \<lparr>SimTruthVec = (\<lambda>n W. [2 \<mapsto> [0x0123456789ABCDEF]]),
              CalcSlack = (\<lambda>n. [2 \<mapsto> \<lparr>arrival_time = 0, required_time = 0, slack = 0\<rparr>]),
              NtkTopoSortPINode = (\<lambda>n. [2]),
              SimER = (\<lambda>tgt apx. 0),
              ObjIsPI = (\<lambda>n v. v = 2),
              ObjIsNode = (\<lambda>n v. False),
              ObjIsPONode = (\<lambda>n v. False),
              Abc_NtkObjNumMax = (\<lambda>n. 4),
              GetCriticalGraph = (\<lambda>n. []),
              MinCut = (\<lambda>nv arcs s t. []),
              sort_ties = (\<lambda>xs a. 0),
              partial_sort_ties = (\<lambda>xs a. 0),
              partial_sort_rest = (\<lambda>xs a. 0)\<rparr>"

definition ex2_dals :: dals where
  "ex2_dals = \<lparr>target_ntk = ex2_ntk, approx_ntk = ex2_ntk, sim_64_cycles = 1,
               truth_vec = [2 \<mapsto> [0x0123456789ABCDEF]], cand_alcs = Map.empty,
               opt_alc = Map.empty\<rparr>"

section \<open>Properties\<close>

subsection \<open>The estimated pair error\<close>

lemma count_bits_card: "count_bits n w = card {j. j < n \<and> bit w j}"
proof (induction n)
  case 0
  then show ?case by simp
next
  case (Suc n)
  have split: "{j. j < Suc n \<and> bit w j} = (if bit w n then {n} else {}) \<union> {j. j < n \<and> bit w j}"
    by (auto simp: less_Suc_eq)
  have "card ((if bit w n then {n} else {}) \<union> {j. j < n \<and> bit w j})
          = (if bit w n then 1 else 0) + card {j. j < n \<and> bit w j}"
    by (subst card_Un_disjoint) auto
  with Suc split show ?case by simp
qed

lemma bitset64_count_xor:
  "bitset64_count (x XOR y) = card {j. j < 64 \<and> bit x j \<noteq> bit y j}"
  by (simp add: bitset64_count_def count_bits_card bit_xor_iff)

lemma err_cnt_loop_sum:
  assumes "\<forall>i \<in> set is. i < length a \<and> i < length b"
  shows "err_cnt_loop (Some a) (Some b) is c
           = Inr (c + (\<Sum>i\<leftarrow>is. int (bitset64_count (a ! i XOR b ! i))))"
  using assms by (induction "is" arbitrary: c) (simp_all add: add.assoc)

lemma differing_bits_card:
  "(\<Sum>i\<leftarrow>[0..<k]. int (card {j. j < 64 \<and> bit ((a::64 word list) ! i) j \<noteq> bit (b ! i) j}))
     = int (card {(i, j). i < k \<and> j < 64 \<and> bit (a ! i) j \<noteq> bit (b ! i) j})"
proof -
  let ?B = "\<lambda>i. {j. j < 64 \<and> bit (a ! i) j \<noteq> bit (b ! i) j}"
  have "{(i, j). i < k \<and> j < 64 \<and> bit (a ! i) j \<noteq> bit (b ! i) j} = Sigma {..<k} ?B"
    by auto
  moreover have "card (Sigma {..<k} ?B) = (\<Sum>i\<in>{..<k}. card (?B i))"
    by (rule card_SigmaI) auto
  moreover have "(\<Sum>i\<leftarrow>[0..<k]. int (card (?B i))) = (\<Sum>i\<in>{..<k}. int (card (?B i)))"
    by (simp add: interv_sum_list_conv_sum_set_nat atLeast0LessThan)
  ultimately show ?thesis by simp
qed

lemma differing_bits_le:
  "card {(i, j). i < k \<and> j < 64 \<and> bit ((a::64 word list) ! i) j \<noteq> bit (b ! i) j} \<le> 64 * k"
proof -
  have "{(i, j). i < k \<and> j < 64 \<and> bit (a ! i) j \<noteq> bit (b ! i) j} \<subseteq> {..<k} \<times> {..<64}"
    by auto
  then have "card {(i, j). i < k \<and> j < 64 \<and> bit (a ! i) j \<noteq> bit (b ! i) j}
               \<le> card ({..<k} \<times> {..<(64::nat)})"
    by (intro card_mono) auto
  then show ?thesis by (simp add: mult.commute)
qed

text \<open>
  C9.  For two nodes whose truth vectors hold \<open>W\<close> words each (\<open>0 < W\<close>, and \<open>64 * W\<close> an
  \<^verbatim>\<open>int\<close>), \<^verbatim>\<open>EstSubPairError\<close> returns the number of bit positions, among the
  \<open>64 * W\<close>, at which the two vectors differ, divided by \<open>64 * W\<close>; the result lies
  between 0 and 1, and exchanging the two nodes gives the same result.
\<close>

theorem EstSubPairError_popcount:
  assumes "truth_vec st t = Some a" and "truth_vec st s = Some b"
    and "length a = nat (sim_64_cycles st)" and "length b = nat (sim_64_cycles st)"
    and "0 < sim_64_cycles st" and "64 * sim_64_cycles st \<le> INT_MAX"
  shows "EstSubPairError st t s
           = Inr (of_nat (card {(i, j). i < nat (sim_64_cycles st) \<and> j < 64
                                  \<and> bit (a ! i) j \<noteq> bit (b ! i) j})
                  / of_int (64 * sim_64_cycles st))
         \<and> (\<exists>e. EstSubPairError st t s = Inr e \<and> 0 \<le> e \<and> e \<le> 1)
         \<and> EstSubPairError st s t = EstSubPairError st t s"
proof -
  let ?W = "sim_64_cycles st"
  let ?D = "\<lambda>a b. card {(i, j). i < nat ?W \<and> j < 64 \<and> bit ((a::64 word list) ! i) j \<noteq> bit (b ! i) j}"
  have val: "EstSubPairError st t' s' = Inr (of_nat (?D a' b') / of_int (64 * ?W))"
    if "truth_vec st t' = Some a'" "truth_vec st s' = Some b'"
       "length a' = nat ?W" "length b' = nat ?W" for t' s' a' b'
  proof -
    have "err_cnt_loop (Some a') (Some b') [0..<nat ?W] 0
            = Inr (0 + (\<Sum>i\<leftarrow>[0..<nat ?W]. int (bitset64_count (a' ! i XOR b' ! i))))"
      by (rule err_cnt_loop_sum) (simp add: that)
    then have "err_cnt_loop (Some a') (Some b') [0..<nat ?W] 0 = Inr (int (?D a' b'))"
      unfolding bitset64_count_xor differing_bits_card by simp
    with that assms(5,6) show ?thesis
      by (simp add: EstSubPairError_def)
  qed
  have sym: "?D b a = ?D a b"
    by (rule arg_cong [where f = card]) auto
  have first: "EstSubPairError st t s = Inr (of_nat (?D a b) / of_int (64 * ?W))"
    using assms(1-4) by (rule val)
  have second: "EstSubPairError st s t = Inr (of_nat (?D b a) / of_int (64 * ?W))"
    using assms(2,1,4,3) by (rule val)
  have "?D a b \<le> 64 * nat ?W"
    by (rule differing_bits_le)
  then have "int (?D a b) \<le> 64 * ?W"
    using assms(5) by linarith
  then have "(of_int (int (?D a b)) :: rat) \<le> of_int (64 * ?W)"
    by (simp only: of_int_le_iff)
  then have le1: "(of_nat (?D a b) :: rat) / of_int (64 * ?W) \<le> 1"
    using assms(5) by (simp add: divide_le_eq_1)
  have ge0: "0 \<le> (of_nat (?D a b) :: rat) / of_int (64 * ?W)"
    using assms(5) by simp
  show ?thesis
    using first second sym le1 ge0 by simp
qed

subsection \<open>Sorting\<close>

lemma sorted_fst_key:
  fixes f :: "'a \<Rightarrow> rat" and g :: "'a \<Rightarrow> nat"
  shows "sorted (map f (sort_key (\<lambda>a. (f a, g a)) xs))"
proof -
  have "sorted (map (\<lambda>a. (f a, g a)) (sort_key (\<lambda>a. (f a, g a)) xs))"
    by (rule sorted_sort_key)
  then have "sorted_wrt (\<lambda>x y. (f x, g x) \<le> (f y, g y)) (sort_key (\<lambda>a. (f a, g a)) xs)"
    by (simp only: sorted_map)
  then have "sorted_wrt (\<lambda>x y. f x \<le> f y) (sort_key (\<lambda>a. (f a, g a)) xs)"
    by (rule sorted_wrt_mono_rel [rotated]) (auto simp: less_eq_prod_def)
  then show ?thesis by (simp only: sorted_map)
qed

lemma std_sort_mset: "mset (std_sort env xs) = mset xs"
  by (simp add: std_sort_def)

lemma std_sort_sorted: "sorted (map GetError (std_sort env xs))"
  unfolding std_sort_def by (rule sorted_fst_key)

lemma std_partial_sort_mset: "mset (std_partial_sort env k xs) = mset xs"
proof -
  let ?ys = "sort_key (\<lambda>a. (GetError a, partial_sort_ties env xs a)) xs"
  have "mset (take k ?ys) + mset (drop k ?ys) = mset (take k ?ys @ drop k ?ys)"
    by (simp only: mset_append)
  also have "\<dots> = mset ?ys" by (simp only: append_take_drop_id)
  also have "\<dots> = mset xs" by simp
  finally have "mset (take k ?ys) + mset (drop k ?ys) = mset xs" .
  then show ?thesis by (simp add: std_partial_sort_def Let_def)
qed

lemma std_partial_sort_prefix:
  "sorted (map GetError (take k (std_partial_sort env k xs)))
   \<and> (\<forall>a \<in> set (take k (std_partial_sort env k xs)).
        \<forall>b \<in> set (drop k (std_partial_sort env k xs)). GetError a \<le> GetError b)"
proof -
  let ?ys = "sort_key (\<lambda>a. (GetError a, partial_sort_ties env xs a)) xs"
  let ?zs = "sort_key (partial_sort_rest env xs) (drop k ?ys)"
  have res: "std_partial_sort env k xs = take k ?ys @ ?zs"
    by (simp add: std_partial_sort_def Let_def)
  have s: "sorted (map GetError ?ys)" by (rule sorted_fst_key)
  have tk: "take k (take k ?ys @ ?zs) = take k ?ys"
  proof (cases "k \<le> length ?ys")
    case True
    then show ?thesis by simp
  next
    case False
    then show ?thesis by simp
  qed
  have dr: "set (drop k (take k ?ys @ ?zs)) = set (drop k ?ys)"
  proof (cases "k \<le> length ?ys")
    case True
    then show ?thesis by simp
  next
    case False
    then show ?thesis by simp
  qed
  have "sorted (map GetError (take k ?ys @ drop k ?ys))" using s by simp
  then have "sorted (map GetError (take k ?ys) @ map GetError (drop k ?ys))"
    by (simp only: map_append)
  then have "sorted (map GetError (take k ?ys))"
    and "\<forall>x \<in> set (map GetError (take k ?ys)). \<forall>y \<in> set (map GetError (drop k ?ys)). x \<le> y"
    by (simp_all only: sorted_append) simp_all
  then show ?thesis
    unfolding res tk dr by simp
qed

subsection \<open>The constructor keeps what it is given\<close>

lemma foldl_push_fan_in_fields:
  "GetError (foldl (push_fan_in f) a gs) = GetError a
   \<and> IsComplemented (foldl (push_fan_in f) a gs) = IsComplemented a
   \<and> GetTarget (foldl (push_fan_in f) a gs) = GetTarget a
   \<and> GetSubstitute (foldl (push_fan_in f) a gs) = GetSubstitute a
   \<and> inv_node (foldl (push_fan_in f) a gs) = inv_node a
   \<and> target_fan_outs (foldl (push_fan_in f) a gs) = target_fan_outs a"
  by (induction gs arbitrary: a) (simp_all add: push_fan_in_def)

lemma foldl_snapshot_fields:
  "GetError (foldl (snapshot_fan_out n) a fs) = GetError a
   \<and> IsComplemented (foldl (snapshot_fan_out n) a fs) = IsComplemented a
   \<and> GetTarget (foldl (snapshot_fan_out n) a fs) = GetTarget a
   \<and> GetSubstitute (foldl (snapshot_fan_out n) a fs) = GetSubstitute a
   \<and> inv_node (foldl (snapshot_fan_out n) a fs) = inv_node a"
  by (induction fs arbitrary: a) (simp_all add: snapshot_fan_out_def foldl_push_fan_in_fields)

lemma ALC_new_fields [simp]:
  "GetError (ALC_new n t s c e) = e"
  "IsComplemented (ALC_new n t s c e) = c"
  "GetTarget (ALC_new n t s c e) = t"
  "GetSubstitute (ALC_new n t s c e) = s"
  "inv_node (ALC_new n t s c e) = None"
  by (simp_all add: ALC_new_def foldl_snapshot_fields)

subsection \<open>The candidate loops\<close>

lemma same_frame_refl [simp]: "same_frame st st"
  by (simp add: same_frame_def)

lemma same_frame_trans: "same_frame a b \<Longrightarrow> same_frame b c \<Longrightarrow> same_frame a c"
  by (simp add: same_frame_def)

lemma EstSubPairError_cong:
  "truth_vec st = truth_vec st' \<Longrightarrow> sim_64_cycles st = sim_64_cycles st'
     \<Longrightarrow> EstSubPairError st t s = EstSubPairError st' t s"
  by (simp only: EstSubPairError_def)

lemma cand_ok_frame: "same_frame st st' \<Longrightarrow> cand_ok ti st t a = cand_ok ti st' t a"
  unfolding cand_ok_def same_frame_def
  using EstSubPairError_cong [of st st'] by simp

lemma cand_list_emplace_back [simp]:
  "cand_list (emplace_back_cand st t a) t' = (if t' = t then cand_list st t @ [a] else cand_list st t')"
  by (simp add: cand_list_def emplace_back_cand_def)

lemma same_frame_emplace_back [simp]: "same_frame st (emplace_back_cand st t a)"
  by (simp add: same_frame_def emplace_back_cand_def)

lemma consider_substitute_Inr:
  assumes "consider_substitute ti t s st = Inr st'"
  shows "same_frame st st'"
    and "t' \<noteq> t \<Longrightarrow> cand_alcs st' t' = cand_alcs st t'"
    and "\<exists>new. cand_list st' t = cand_list st t @ new
           \<and> map GetSubstitute new = filter (passes_filter ti t) [s]
           \<and> (\<forall>a \<in> set new. cand_ok ti st t a)"
proof -
  show "same_frame st st'"
    using assms
    by (auto simp: consider_substitute_def split: if_splits option.splits sum.splits)
  show "cand_alcs st' t' = cand_alcs st t'" if "t' \<noteq> t"
    using assms that
    by (auto simp: consider_substitute_def emplace_back_cand_def
        split: if_splits option.splits sum.splits)
  show "\<exists>new. cand_list st' t = cand_list st t @ new
           \<and> map GetSubstitute new = filter (passes_filter ti t) [s]
           \<and> (\<forall>a \<in> set new. cand_ok ti st t a)"
  proof (cases "passes_filter ti t s")
    case False
    with assms have "st' = st"
      by (auto simp: consider_substitute_def passes_filter_def split: if_splits option.splits sum.splits)
    with False show ?thesis by simp
  next
    case True
    then obtain ts tt where tt: "t \<noteq> s" "ti s = Some ts" "ti t = Some tt"
      "arrival_time ts < arrival_time tt"
      by (auto simp: passes_filter_def split: option.splits)
    with assms obtain est where est: "EstSubPairError st t s = Inr est"
      by (auto simp: consider_substitute_def split: sum.splits)
    define a where "a = (if arrival_time ts < arrival_time tt - 1
        then ALC_new (approx_ntk st) t s (1 / 2 < est) (min est (1 - est))
        else ALC_new (approx_ntk st) t s False est)"
    have st': "st' = emplace_back_cand st t a"
      using assms tt est by (auto simp: consider_substitute_def a_def)
    have "cand_ok ti st t a"
      using tt est by (auto simp: cand_ok_def a_def)
    moreover have "GetSubstitute a = s"
      by (simp add: a_def)
    ultimately show ?thesis
      using True st' by (intro exI [of _ "[a]"]) simp
  qed
qed

lemma s_loop_Inr:
  assumes "foldM_err (consider_substitute ti t) ss st = Inr st'"
  shows "same_frame st st'
     \<and> (\<forall>t'. t' \<noteq> t \<longrightarrow> cand_alcs st' t' = cand_alcs st t')
     \<and> (\<exists>new. cand_list st' t = cand_list st t @ new
           \<and> map GetSubstitute new = filter (passes_filter ti t) ss
           \<and> (\<forall>a \<in> set new. cand_ok ti st t a))"
  using assms
proof (induction ss arbitrary: st)
  case Nil
  then show ?case by simp
next
  case (Cons s ss)
  then obtain st1 where s1: "consider_substitute ti t s st = Inr st1"
    and rest: "foldM_err (consider_substitute ti t) ss st1 = Inr st'"
    by (auto split: sum.splits)
  note c = consider_substitute_Inr [OF s1]
  from c(3) obtain new1 where n1: "cand_list st1 t = cand_list st t @ new1"
    "map GetSubstitute new1 = filter (passes_filter ti t) [s]" "\<forall>a \<in> set new1. cand_ok ti st t a"
    by blast
  from Cons.IH [OF rest] obtain new2 where n2: "same_frame st1 st'"
    "\<forall>t'. t' \<noteq> t \<longrightarrow> cand_alcs st' t' = cand_alcs st1 t'"
    "cand_list st' t = cand_list st1 t @ new2"
    "map GetSubstitute new2 = filter (passes_filter ti t) ss" "\<forall>a \<in> set new2. cand_ok ti st1 t a"
    by blast
  have ok2: "\<forall>a \<in> set new2. cand_ok ti st t a"
    using n2(5) cand_ok_frame [OF c(1)] by simp
  have "cand_list st' t = cand_list st t @ (new1 @ new2)"
    using n1(1) n2(3) by simp
  moreover have "map GetSubstitute (new1 @ new2) = filter (passes_filter ti t) (s # ss)"
    using n1(2) n2(4) by simp
  moreover have "\<forall>a \<in> set (new1 @ new2). cand_ok ti st t a"
    using n1(3) ok2 by auto
  moreover have "same_frame st st'"
    using c(1) n2(1) by (rule same_frame_trans)
  moreover have "\<forall>t'. t' \<noteq> t \<longrightarrow> cand_alcs st' t' = cand_alcs st t'"
    using c(2) n2(2) by simp
  ultimately show ?case by blast
qed

lemma cand_list_cong: "cand_alcs st' t = cand_alcs st t \<Longrightarrow> cand_list st' t = cand_list st t"
  by (simp add: cand_list_def)

lemma ranked_std_sort: "length l \<le> k \<Longrightarrow> ranked k (std_sort env l)"
proof -
  assume "length l \<le> k"
  then have "length (std_sort env l) \<le> k" by (simp add: std_sort_def)
  then show ?thesis
    using std_sort_sorted [of env l] by (simp add: ranked_def)
qed

lemma ranked_std_partial_sort: "ranked k (std_partial_sort env k l)"
  using std_partial_sort_prefix [of k env l] by (simp add: ranked_def)

lemma rank_cands_props:
  "same_frame st (rank_cands env k t st)"
  "t' \<noteq> t \<Longrightarrow> cand_alcs (rank_cands env k t st) t' = cand_alcs st t'"
  "mset (cand_list (rank_cands env k t st) t) = mset (cand_list st t)"
  "ranked k (cand_list (rank_cands env k t st) t)"
  "cand_alcs (rank_cands env k t st) t = Some (cand_list (rank_cands env k t st) t)"
proof -
  show "same_frame st (rank_cands env k t st)"
    by (simp add: rank_cands_def same_frame_def)
  show "t' \<noteq> t \<Longrightarrow> cand_alcs (rank_cands env k t st) t' = cand_alcs st t'"
    by (simp add: rank_cands_def)
  have l: "cand_list (rank_cands env k t st) t =
      (if length (cand_list st t) > k then std_partial_sort env k (cand_list st t)
       else std_sort env (cand_list st t))"
    by (simp add: rank_cands_def cand_list_def)
  show "mset (cand_list (rank_cands env k t st) t) = mset (cand_list st t)"
    unfolding l by (simp add: std_sort_mset std_partial_sort_mset)
  show "ranked k (cand_list (rank_cands env k t st) t)"
    unfolding l by (simp add: ranked_std_sort ranked_std_partial_sort)
  show "cand_alcs (rank_cands env k t st) t = Some (cand_list (rank_cands env k t st) t)"
    by (simp add: rank_cands_def cand_list_def)
qed

lemma calc_cands_Inr:
  assumes "calc_cands env ti ss k t st = Inr st'"
  shows "same_frame st st'"
    and "\<forall>t'. t' \<noteq> t \<longrightarrow> cand_alcs st' t' = cand_alcs st t'"
    and "\<exists>new. mset (cand_list st' t) = mset (cand_list st t) + mset new
           \<and> map GetSubstitute new = filter (passes_filter ti t) ss
           \<and> (\<forall>a \<in> set new. cand_ok ti st t a)"
    and "ranked k (cand_list st' t)"
    and "cand_alcs st' t = Some (cand_list st' t)"
proof -
  from assms obtain st1 where l: "foldM_err (consider_substitute ti t) ss st = Inr st1"
    and r: "st' = rank_cands env k t st1"
    by (auto simp: calc_cands_def split: sum.splits)
  from s_loop_Inr [OF l] obtain new where s: "same_frame st st1"
    "\<forall>t'. t' \<noteq> t \<longrightarrow> cand_alcs st1 t' = cand_alcs st t'"
    "cand_list st1 t = cand_list st t @ new"
    "map GetSubstitute new = filter (passes_filter ti t) ss" "\<forall>a \<in> set new. cand_ok ti st t a"
    by blast
  have "same_frame st1 st'"
    unfolding r by (rule rank_cands_props(1))
  with s(1) show "same_frame st st'"
    by (rule same_frame_trans)
  show "\<forall>t'. t' \<noteq> t \<longrightarrow> cand_alcs st' t' = cand_alcs st t'"
    using s(2) rank_cands_props(2) [where t = t and k = k and st = st1 and env = env] r by simp
  have "mset (cand_list st' t) = mset (cand_list st t) + mset new"
    using s(3) rank_cands_props(3) [where t = t and k = k and st = st1 and env = env] r by simp
  with s(4,5) show "\<exists>new. mset (cand_list st' t) = mset (cand_list st t) + mset new
           \<and> map GetSubstitute new = filter (passes_filter ti t) ss
           \<and> (\<forall>a \<in> set new. cand_ok ti st t a)"
    by blast
  show "ranked k (cand_list st' t)"
    unfolding r by (rule rank_cands_props(4))
  show "cand_alcs st' t = Some (cand_list st' t)"
    unfolding r by (rule rank_cands_props(5))
qed

lemma calc_cands_all_ok:
  assumes "calc_cands env ti ss k t st = Inr st'" and "all_ok ti ss st"
  shows "all_ok ti ss st'"
  unfolding all_ok_def
proof (intro allI impI)
  fix u a
  assume a: "a \<in> set (cand_list st' u)"
  note c = calc_cands_Inr [OF assms(1)]
  have fr: "cand_ok ti st v b \<Longrightarrow> cand_ok ti st' v b" for v b
    using cand_ok_frame [OF c(1), of ti v b] by (rule iffD1)
  have old: "b \<in> set (cand_list st v) \<Longrightarrow> cand_ok ti st v b \<and> GetSubstitute b \<in> set ss" for v b
    using assms(2) unfolding all_ok_def by blast
  show "cand_ok ti st' u a \<and> GetSubstitute a \<in> set ss"
  proof (cases "u = t")
    case False
    with c(2) have "cand_alcs st' u = cand_alcs st u" by blast
    then have "cand_list st' u = cand_list st u"
      by (rule cand_list_cong)
    with a have "a \<in> set (cand_list st u)" by simp
    from old [OF this] show ?thesis using fr by blast
  next
    case True
    from c(3) obtain new where n: "mset (cand_list st' t) = mset (cand_list st t) + mset new"
      "map GetSubstitute new = filter (passes_filter ti t) ss" "\<forall>a \<in> set new. cand_ok ti st t a"
      by blast
    have "set_mset (mset (cand_list st' t)) = set_mset (mset (cand_list st t) + mset new)"
      by (simp only: n(1))
    then have "set (cand_list st' t) = set (cand_list st t) \<union> set new"
      by simp
    with a True have "a \<in> set (cand_list st t) \<or> a \<in> set new" by simp
    then show ?thesis
    proof
      assume "a \<in> set (cand_list st t)"
      from old [OF this] show ?thesis using fr True by blast
    next
      assume an: "a \<in> set new"
      then have "GetSubstitute a \<in> set (map GetSubstitute new)" by simp
      then have "GetSubstitute a \<in> set (filter (passes_filter ti t) ss)" by (simp only: n(2))
      then have "GetSubstitute a \<in> set ss" by simp
      moreover have "cand_ok ti st t a" using n(3) an by blast
      ultimately show ?thesis using fr True by blast
    qed
  qed
qed

lemma t_loop_all_ok:
  assumes "foldM_err (calc_cands env ti ss k) ts st = Inr st'" and "all_ok ti ss st"
  shows "all_ok ti ss st' \<and> same_frame st st'"
  using assms
proof (induction ts arbitrary: st)
  case Nil
  then show ?case by simp
next
  case (Cons t ts)
  from Cons.prems(1) obtain st1 where s1: "calc_cands env ti ss k t st = Inr st1"
    and rest: "foldM_err (calc_cands env ti ss k) ts st1 = Inr st'"
    by (auto split: sum.splits)
  have "all_ok ti ss st1"
    using s1 Cons.prems(2) by (rule calc_cands_all_ok)
  from Cons.IH [OF rest this] have "all_ok ti ss st'" "same_frame st1 st'" by simp_all
  moreover have "same_frame st st1" using s1 by (rule calc_cands_Inr(1))
  ultimately show ?case by (blast intro: same_frame_trans)
qed

lemma t_loop_others:
  assumes "foldM_err (calc_cands env ti ss k) ts st = Inr st'" and "t \<notin> set ts"
  shows "cand_alcs st' t = cand_alcs st t"
  using assms
proof (induction ts arbitrary: st)
  case Nil
  then show ?case by simp
next
  case (Cons u ts)
  from Cons.prems(1) obtain st1 where s1: "calc_cands env ti ss k u st = Inr st1"
    and rest: "foldM_err (calc_cands env ti ss k) ts st1 = Inr st'"
    by (auto split: sum.splits)
  from Cons.prems(2) have ne: "t \<noteq> u" and nin: "t \<notin> set ts" by auto
  have "cand_alcs st1 t = cand_alcs st t"
    using calc_cands_Inr(2) [OF s1] ne by simp
  with Cons.IH [OF rest nin] show ?case by simp
qed

lemma t_loop_ranked:
  assumes "foldM_err (calc_cands env ti ss k) ts st = Inr st'" and "distinct ts"
    and "\<forall>t \<in> set ts. cand_list st t = []" and "t \<in> set ts"
  shows "cand_alcs st' t = Some (cand_list st' t)
     \<and> mset (map GetSubstitute (cand_list st' t)) = mset (filter (passes_filter ti t) ss)
     \<and> ranked k (cand_list st' t)"
  using assms
proof (induction ts arbitrary: st)
  case Nil
  then show ?case by simp
next
  case (Cons u ts)
  from Cons.prems(1) obtain st1 where s1: "calc_cands env ti ss k u st = Inr st1"
    and rest: "foldM_err (calc_cands env ti ss k) ts st1 = Inr st'"
    by (auto split: sum.splits)
  note c = calc_cands_Inr [OF s1]
  from Cons.prems(2) have d: "u \<notin> set ts" "distinct ts" by simp_all
  show ?case
  proof (cases "t = u")
    case True
    have e: "cand_list st u = []"
      using Cons.prems(3) by simp
    from c(3) obtain new where n0: "mset (cand_list st1 u) = mset (cand_list st u) + mset new"
      and n2: "map GetSubstitute new = filter (passes_filter ti u) ss"
      by blast
    from n0 e have n: "mset (cand_list st1 u) = mset new"
      "map GetSubstitute new = filter (passes_filter ti u) ss"
      using n2 by simp_all
    have "image_mset GetSubstitute (mset (cand_list st1 u)) = image_mset GetSubstitute (mset new)"
      by (simp only: n(1))
    then have "mset (map GetSubstitute (cand_list st1 u)) = mset (map GetSubstitute new)"
      by simp
    then have m: "mset (map GetSubstitute (cand_list st1 u)) = mset (filter (passes_filter ti u) ss)"
      by (simp add: n(2))
    have keep: "cand_alcs st' u = cand_alcs st1 u"
      using rest d(1) by (rule t_loop_others)
    then have "cand_list st' u = cand_list st1 u"
      by (rule cand_list_cong)
    with keep m c(4,5) True show ?thesis by simp
  next
    case False
    with Cons.prems(4) have tin: "t \<in> set ts" by simp
    have "\<forall>v \<in> set ts. cand_list st1 v = []"
    proof
      fix v assume v: "v \<in> set ts"
      with d(1) have "v \<noteq> u" by auto
      with c(2) have "cand_alcs st1 v = cand_alcs st v" by blast
      then have "cand_list st1 v = cand_list st v" by (rule cand_list_cong)
      with Cons.prems(3) v show "cand_list st1 v = []" by simp
    qed
    from Cons.IH [OF rest d(2) this tin] show ?thesis .
  qed
qed

subsection \<open>The refinement loop\<close>

lemma same_cands_refl [simp]: "same_cands st st"
  by (simp add: same_cands_def)

lemma same_cands_trans: "same_cands a b \<Longrightarrow> same_cands b c \<Longrightarrow> same_cands a c"
  by (simp add: same_cands_def)

lemma refine_loop_frame:
  "refine_loop env k cs ks st = Inr (ks', st') \<Longrightarrow>
     same_cands st st' \<and> opt_alc st' = opt_alc st \<and> (cs = [] \<longrightarrow> ks' = ks)"
proof (induction env k cs ks st rule: refine_loop.induct)
  case (1 env top_k k_alcs st)
  then show ?case by simp
next
  case (2 env top_k alc rest k_alcs st)
  show ?case
  proof (cases "length k_alcs = top_k")
    case True
    with "2.prems" show ?thesis by simp
  next
    case False
    obtain alc1 n1 where d: "Do alc (approx_ntk st) = (alc1, n1)"
      by (cases "Do alc (approx_ntk st)")
    with "2.prems" False obtain n2 where
      r: "Recover (SetError alc1 (SimER env (target_ntk st) n1)) n1 = Inr n2"
      and l: "refine_loop env top_k rest (k_alcs @ [SetError alc1 (SimER env (target_ntk st) n1)])
                (st\<lparr>approx_ntk := n2\<rparr>) = Inr (ks', st')"
      by (auto split: sum.splits)
    from "2.IH" [OF False d [symmetric] r l]
    show ?thesis by (simp add: same_cands_def)
  qed
qed

lemma calc_opt_Inr:
  assumes "calc_opt env k t st = Inr st'"
  shows "same_cands st st'"
    and "opt_alc st u = Some x \<Longrightarrow> opt_alc st' u = Some x"
    and "cand_list st t \<noteq> []"
proof -
  from assms obtain ks st1 where r: "refine_loop env k (cand_list st t) [] st = Inr (ks, st1)"
    and e: "emplace_opt st1 t (std_sort env ks) = Inr st'"
    by (auto simp: calc_opt_def split: sum.splits)
  note f = refine_loop_frame [OF r]
  from e have "same_cands st1 st'"
    by (auto simp: emplace_opt_def same_cands_def split: list.splits option.splits)
  with f show "same_cands st st'" by (blast intro: same_cands_trans)
  show "opt_alc st' u = Some x" if "opt_alc st u = Some x"
    using e f that
    by (auto simp: emplace_opt_def split: list.splits option.splits)
  show "cand_list st t \<noteq> []"
  proof
    assume "cand_list st t = []"
    with f have "ks = []" by simp
    with e show False by (simp add: emplace_opt_def std_sort_def)
  qed
qed

lemma opt_loop_Inr:
  assumes "foldM_err (calc_opt env k) ts st = Inr st'"
  shows "same_cands st st' \<and> (\<forall>u x. opt_alc st u = Some x \<longrightarrow> opt_alc st' u = Some x)
     \<and> (\<forall>t \<in> set ts. cand_list st t \<noteq> [])"
  using assms
proof (induction ts arbitrary: st)
  case Nil
  then show ?case by simp
next
  case (Cons t ts)
  from Cons.prems obtain st1 where s1: "calc_opt env k t st = Inr st1"
    and rest: "foldM_err (calc_opt env k) ts st1 = Inr st'"
    by (auto split: sum.splits)
  note c = calc_opt_Inr [OF s1]
  from Cons.IH [OF rest] have ih: "same_cands st1 st'"
    "\<forall>u x. opt_alc st1 u = Some x \<longrightarrow> opt_alc st' u = Some x"
    "\<forall>t \<in> set ts. cand_list st1 t \<noteq> []"
    by simp_all
  have cl: "cand_list st1 v = cand_list st v" for v
    using c(1) by (simp add: same_cands_def cand_list_def)
  have "same_cands st st'"
    using c(1) ih(1) by (rule same_cands_trans)
  moreover have "\<forall>u x. opt_alc st u = Some x \<longrightarrow> opt_alc st' u = Some x"
    using c(2) ih(2) by blast
  moreover have "\<forall>v \<in> set (t # ts). cand_list st v \<noteq> []"
    using c(3) ih(3) cl by simp
  ultimately show ?case by blast
qed

subsection \<open>CalcALCs as a whole\<close>

lemma foldl_emplace_empty:
  assumes "\<forall>t. cand_list st t = []"
  shows "(\<forall>t. cand_list (foldl emplace_empty st ts) t = [])
     \<and> same_frame st (foldl emplace_empty st ts)"
  using assms
proof (induction ts arbitrary: st)
  case Nil
  then show ?case by simp
next
  case (Cons u ts)
  have e: "\<forall>t. cand_list (emplace_empty st u) t = []"
    using Cons.prems by (auto simp: emplace_empty_def cand_list_def split: option.splits)
  have f: "same_frame st (emplace_empty st u)"
    by (simp add: emplace_empty_def same_frame_def split: option.splits)
  from Cons.IH [OF e] f show ?case
    by (auto intro: same_frame_trans)
qed

lemma CalcALCs_phases:
  assumes "CalcALCs env ts k st = Inr st'"
  obtains st3 st4 where
    "truth_vec st3 = SimTruthVec env (approx_ntk st) (sim_64_cycles st)"
    "sim_64_cycles st3 = sim_64_cycles st" "approx_ntk st3 = approx_ntk st"
    "target_ntk st3 = target_ntk st" "opt_alc st3 = opt_alc st"
    "\<forall>t. cand_list st3 t = []"
    "foldM_err (calc_cands env (CalcSlack env (approx_ntk st)) (NtkTopoSortPINode env (approx_ntk st)) k)
       ts st3 = Inr st4"
    "foldM_err (calc_opt env k) ts st4 = Inr st'"
proof -
  define st2 where
    "st2 = st\<lparr>cand_alcs := Map.empty,
              truth_vec := SimTruthVec env (approx_ntk st) (sim_64_cycles st)\<rparr>"
  define st3 where "st3 = foldl emplace_empty st2 ts"
  have e2: "\<forall>t. cand_list st2 t = []"
    by (simp add: st2_def cand_list_def)
  from foldl_emplace_empty [OF e2, of ts]
  have e3: "\<forall>t. cand_list st3 t = []" and f3: "same_frame st2 st3"
    by (simp_all add: st3_def)
  have a3: "approx_ntk st3 = approx_ntk st"
    using f3 by (simp add: same_frame_def st2_def)
  from assms obtain st4 where
    p2: "foldM_err (calc_cands env (CalcSlack env (approx_ntk st3)) (NtkTopoSortPINode env (approx_ntk st3)) k)
       ts st3 = Inr st4"
    and p3: "foldM_err (calc_opt env k) ts st4 = Inr st'"
    by (auto simp: CalcALCs_def Let_def st3_def st2_def split: sum.splits)
  show thesis
  proof (rule that [of st3 st4])
    show "truth_vec st3 = SimTruthVec env (approx_ntk st) (sim_64_cycles st)"
      using f3 by (simp add: same_frame_def st2_def)
    show "sim_64_cycles st3 = sim_64_cycles st"
      using f3 by (simp add: same_frame_def st2_def)
    show "approx_ntk st3 = approx_ntk st" by (rule a3)
    show "target_ntk st3 = target_ntk st"
      using f3 by (simp add: same_frame_def st2_def)
    show "opt_alc st3 = opt_alc st"
      using f3 by (simp add: same_frame_def st2_def)
    show "\<forall>t. cand_list st3 t = []" by (rule e3)
    show "foldM_err (calc_cands env (CalcSlack env (approx_ntk st)) (NtkTopoSortPINode env (approx_ntk st)) k)
       ts st3 = Inr st4"
      using p2 by (simp only: a3)
    show "foldM_err (calc_opt env k) ts st4 = Inr st'" by (rule p3)
  qed
qed

lemma CalcALCs_cand_ok:
  assumes "CalcALCs env ts k st = Inr st'" and "a \<in> set (cand_list st' t)"
  shows "cand_ok (CalcSlack env (approx_ntk st)) st' t a
     \<and> GetSubstitute a \<in> set (NtkTopoSortPINode env (approx_ntk st))"
proof -
  let ?ti = "CalcSlack env (approx_ntk st)"
  let ?ss = "NtkTopoSortPINode env (approx_ntk st)"
  from assms(1) obtain st3 st4 where
    e3: "\<forall>t. cand_list st3 t = []"
    and p2: "foldM_err (calc_cands env ?ti ?ss k) ts st3 = Inr st4"
    and p3: "foldM_err (calc_opt env k) ts st4 = Inr st'"
    by (rule CalcALCs_phases)
  have "all_ok ?ti ?ss st3"
    using e3 by (simp add: all_ok_def)
  with p2 have ok4: "all_ok ?ti ?ss st4"
    using t_loop_all_ok by blast
  from opt_loop_Inr [OF p3] have sc: "same_cands st4 st'" by simp
  then have cl: "cand_list st' t = cand_list st4 t"
    by (simp add: same_cands_def cand_list_def)
  with assms(2) ok4 have ok: "cand_ok ?ti st4 t a" and mem: "GetSubstitute a \<in> set ?ss"
    by (simp_all add: all_ok_def)
  have "EstSubPairError st' u v = EstSubPairError st4 u v" for u v
    using sc by (intro EstSubPairError_cong) (simp_all add: same_cands_def)
  with ok have "cand_ok ?ti st' t a"
    by (simp add: cand_ok_def)
  with mem show ?thesis by simp
qed

lemma foldM_err_Inl:
  assumes "x \<in> set xs" and "\<And>acc. \<exists>e. f x acc = Inl e"
  shows "\<exists>e. foldM_err f xs acc = Inl e"
  using assms(1)
proof (induction xs arbitrary: acc)
  case Nil
  then show ?case by simp
next
  case (Cons y ys)
  show ?case
  proof (cases "f y acc")
    case (Inl e)
    then show ?thesis by simp
  next
    case (Inr acc1)
    show ?thesis
    proof (cases "x = y")
      case True
      with assms(2) [of acc] Inr show ?thesis by simp
    next
      case False
      with Cons.prems have "x \<in> set ys" by simp
      from Cons.IH [OF this, of acc1] Inr show ?thesis by simp
    qed
  qed
qed

subsection \<open>CalcALCs on the example\<close>

lemma ex_est0:
  "EstSubPairError ex_dals 4 2 = Inr (11 / 16)"
  "EstSubPairError ex_dals 4 3 = Inr (1 / 4)"
  "EstSubPairError ex_dals 5 2 = Inr (11 / 16)"
  "EstSubPairError ex_dals 5 3 = Inr (1 / 4)"
  "EstSubPairError ex_dals 5 4 = Inr 0"
  by code_simp+

lemma ex_est:
  assumes "truth_vec st = ex_truth_vec" and "sim_64_cycles st = 1"
  shows "EstSubPairError st 4 2 = Inr (11 / 16)"
    and "EstSubPairError st 4 3 = Inr (1 / 4)"
    and "EstSubPairError st 5 2 = Inr (11 / 16)"
    and "EstSubPairError st 5 3 = Inr (1 / 4)"
    and "EstSubPairError st 5 4 = Inr 0"
proof -
  have "EstSubPairError st t s = EstSubPairError ex_dals t s" for t s
    by (rule EstSubPairError_cong) (simp_all add: assms ex_dals_def)
  then show "EstSubPairError st 4 2 = Inr (11 / 16)"
    and "EstSubPairError st 4 3 = Inr (1 / 4)"
    and "EstSubPairError st 5 2 = Inr (11 / 16)"
    and "EstSubPairError st 5 3 = Inr (1 / 4)"
    and "EstSubPairError st 5 4 = Inr 0"
    by (simp_all only: ex_est0)
qed

lemmas ex_defs = ex_env_def ex_dals_def ex_ntk_def ex_time_info_def ex_SimER_def ex_stale_def

lemmas CalcALCs_defs = CalcALCs_def emplace_empty_def calc_cands_def consider_substitute_def
  emplace_back_cand_def cand_list_def ALC_new_def snapshot_fan_out_def push_fan_in_def
  ObjFanins_def ObjFanouts_def rank_cands_def std_sort_def std_partial_sort_def calc_opt_def
  Do_def Recover_def SetError_def restore_fan_out_def ObjCreateInv_def new_id_def ObjReplace_def
  ObjDelete_def Abc_ObjAddFanin_def Abc_ObjRemoveFanins_def emplace_opt_def Let_def

lemma ex_CalcALCs:
  "\<exists>st'. CalcALCs ex_env [4, 5] 2 ex_dals = Inr st'
     \<and> cand_alcs st' 4 = Some (cand_list st' 4) \<and> cand_alcs st' 5 = Some (cand_list st' 5)
     \<and> map cand_triple (cand_list st' 4) = [(1 / 4, False, 3), (11 / 16, False, 2)]
     \<and> map cand_triple (cand_list st' 5) = [(0, False, 4), (1 / 4, False, 3), (5 / 16, True, 2)]
     \<and> opt_alc st' 5 = Some ex_stale
     \<and> map_option cand_triple (opt_alc st' 4) = Some (0, False, 2)"
  by (simp add: ex_defs CalcALCs_defs ex_est cand_triple_def)

lemma ex_CalcALCs_result:
  obtains st' where "CalcALCs ex_env [4, 5] 2 ex_dals = Inr st'"
    "cand_alcs st' 4 = Some (cand_list st' 4)" "cand_alcs st' 5 = Some (cand_list st' 5)"
    "map cand_triple (cand_list st' 4) = [(1 / 4, False, 3), (11 / 16, False, 2)]"
    "map cand_triple (cand_list st' 5) = [(0, False, 4), (1 / 4, False, 3), (5 / 16, True, 2)]"
    "opt_alc st' 5 = Some ex_stale"
    "map_option cand_triple (opt_alc st' 4) = Some (0, False, 2)"
  using ex_CalcALCs by (elim exE conjE) (rule that)

lemma ex_cand_5:
  obtains st' a0 a1 a2 where "CalcALCs ex_env [4, 5] 2 ex_dals = Inr st'"
    "cand_alcs st' 5 = Some [a0, a1, a2]"
    "cand_triple a0 = (0, False, 4)" "cand_triple a1 = (1 / 4, False, 3)"
    "cand_triple a2 = (5 / 16, True, 2)"
proof -
  obtain st' where s: "CalcALCs ex_env [4, 5] 2 ex_dals = Inr st'"
    "cand_alcs st' 5 = Some (cand_list st' 5)"
    "map cand_triple (cand_list st' 5) = [(0, False, 4), (1 / 4, False, 3), (5 / 16, True, 2)]"
    by (rule ex_CalcALCs_result)
  from s(3) obtain a0 a1 a2 where l: "cand_list st' 5 = [a0, a1, a2]"
    "cand_triple a0 = (0, False, 4)" "cand_triple a1 = (1 / 4, False, 3)"
    "cand_triple a2 = (5 / 16, True, 2)"
    by (auto simp: map_eq_Cons_conv)
  from s(2) l(1) have "cand_alcs st' 5 = Some [a0, a1, a2]" by simp
  from s(1) this l(2-4) show thesis by (rule that)
qed

lemma ex_CalcALCs_top_1:
  "cand_triples (CalcALCs ex_env [4, 5] 1 ex_dals) 5
     = Inr [(0, False, 4), (5 / 16, True, 2), (1 / 4, False, 3)]"
  by (simp add: ex_defs CalcALCs_defs ex_est cand_triple_def cand_triples_def)

lemma ex_tie_est0:
  "EstSubPairError (ex_dals\<lparr>truth_vec := ex_tie_vec\<rparr>) 4 2 = Inr 0"
  "EstSubPairError (ex_dals\<lparr>truth_vec := ex_tie_vec\<rparr>) 4 3 = Inr (1 / 4)"
  "EstSubPairError (ex_dals\<lparr>truth_vec := ex_tie_vec\<rparr>) 5 2 = Inr 0"
  "EstSubPairError (ex_dals\<lparr>truth_vec := ex_tie_vec\<rparr>) 5 3 = Inr (1 / 4)"
  "EstSubPairError (ex_dals\<lparr>truth_vec := ex_tie_vec\<rparr>) 5 4 = Inr 0"
  by code_simp+

lemma ex_tie_est:
  assumes "truth_vec st = ex_tie_vec" and "sim_64_cycles st = 1"
  shows "EstSubPairError st 4 2 = Inr 0"
    and "EstSubPairError st 4 3 = Inr (1 / 4)"
    and "EstSubPairError st 5 2 = Inr 0"
    and "EstSubPairError st 5 3 = Inr (1 / 4)"
    and "EstSubPairError st 5 4 = Inr 0"
proof -
  have "EstSubPairError st t s = EstSubPairError (ex_dals\<lparr>truth_vec := ex_tie_vec\<rparr>) t s" for t s
    by (rule EstSubPairError_cong) (simp_all add: assms ex_dals_def)
  then show "EstSubPairError st 4 2 = Inr 0"
    and "EstSubPairError st 4 3 = Inr (1 / 4)"
    and "EstSubPairError st 5 2 = Inr 0"
    and "EstSubPairError st 5 3 = Inr (1 / 4)"
    and "EstSubPairError st 5 4 = Inr 0"
    by (simp_all only: ex_tie_est0)
qed

lemma ex_CalcALCs_tie:
  "cand_triples (CalcALCs ex_tie_env [4, 5] 2 ex_dals) 5
     = Inr [(0, False, 4), (0, False, 2), (1 / 4, False, 3)]"
  by (simp add: ex_tie_env_def ex_defs CalcALCs_defs ex_tie_est cand_triple_def cand_triples_def)

lemma ex_const_CalcALCs: "CalcALCs ex_const_env [3] 3 ex_const_dals = Inl UndefinedBehaviour"
  by (simp add: ex_const_env_def ex_const_dals_def ex_const_time_info_def CalcALCs_defs)

lemma ex_const_round: "Run_round ex_const_env ex_const_dals = Inl UndefinedBehaviour"
proof -
  have "foldM_err (collect_slack_0 (CalcSlack ex_const_env (approx_ntk ex_const_dals)))
          (NtkTopoSortPINode ex_const_env (approx_ntk ex_const_dals)) [] = Inr [2, 3]"
    by (simp add: ex_const_env_def ex_const_time_info_def collect_slack_0_def)
  moreover have "filter (ObjIsNode ex_const_env (approx_ntk ex_const_dals)) [2, 3] = [3]"
    by (simp add: ex_const_env_def)
  ultimately show ?thesis
    using ex_const_CalcALCs by (simp add: Run_round_def)
qed

lemma ex_flow_arcs:
  "ex_flow = Inr [(0, 2, DBL_MAX), (0, 3, DBL_MAX), (4, 12, DBL_MIN), (5, 13, 1 / 4),
      (13, 7, DBL_MAX), (2, 4, DBL_MAX), (3, 4, DBL_MAX), (12, 5, DBL_MAX)]"
proof -
  obtain st' where s: "CalcALCs ex_env [4, 5] 2 ex_dals = Inr st'"
    "opt_alc st' 5 = Some ex_stale"
    "map_option cand_triple (opt_alc st' 4) = Some (0, False, 2)"
    by (rule ex_CalcALCs_result)
  from s(3) obtain a where a: "opt_alc st' 4 = Some a" "GetError a = 0"
    by (auto simp: cand_triple_def)
  have "flow_arcs ex_env st' 8 [2, 3, 4, 5] = Inr [(0, 2, DBL_MAX), (0, 3, DBL_MAX),
      (4, 12, DBL_MIN), (5, 13, 1 / 4), (13, 7, DBL_MAX), (2, 4, DBL_MAX), (3, 4, DBL_MAX),
      (12, 5, DBL_MAX)]"
    using s(2) a
    by (simp add: flow_arcs_def add_node_arcs_def node_arcs_def critical_arcs_def ex_env_def
        ex_stale_def)
  with s(1) show ?thesis by (simp add: ex_flow_def)
qed

theorem EstSubPairError_popcount_witness:
  "EstSubPairError ex_dals 5 2 = Inr (11 / 16)
   \<and> (\<exists>e. EstSubPairError ex_dals 5 2 = Inr e \<and> 0 \<le> e \<and> e \<le> 1)
   \<and> EstSubPairError ex_dals 2 5 = EstSubPairError ex_dals 5 2"
proof -
  have a: "truth_vec ex_dals 5 = Some [0x00000000000F0000]"
    and b: "truth_vec ex_dals 2 = Some [0xFFFFFFFFFFFF0000]"
    by (simp_all add: ex_dals_def ex_truth_vec_def)
  have la: "length [0x00000000000F0000 :: 64 word] = nat (sim_64_cycles ex_dals)"
    and lb: "length [0xFFFFFFFFFFFF0000 :: 64 word] = nat (sim_64_cycles ex_dals)"
    and w: "0 < sim_64_cycles ex_dals" "64 * sim_64_cycles ex_dals \<le> INT_MAX"
    by (simp_all add: ex_dals_def INT_MAX_def)
  note pc = EstSubPairError_popcount [OF a b la lb w]
  from pc have c2: "\<exists>e. EstSubPairError ex_dals 5 2 = Inr e \<and> 0 \<le> e \<and> e \<le> 1"
    by (rule conjunct1 [OF conjunct2])
  from pc have c3: "EstSubPairError ex_dals 2 5 = EstSubPairError ex_dals 5 2"
    by (rule conjunct2 [OF conjunct2])
  from ex_est0(3) c2 c3 show ?thesis by (intro conjI)
qed

subsection \<open>The stored error of a candidate\<close>

text \<open>
  C3, as amended.  Every candidate that \<^verbatim>\<open>CalcALCs\<close> leaves in \<^verbatim>\<open>cand_alcs_\<close> names a
  substitute that arrives strictly before its target.  When the substitute arrives
  more than one level before the target, the stored error is
  \<open>min est_error (1 - est_error)\<close> and is at most one half.  Otherwise the substitute
  arrives exactly one level before the target and the stored error is the estimated pair
  error itself, which the code does not clamp.
\<close>

theorem CalcALCs_stored_error:
  assumes "CalcALCs env target_nodes top_k st = Inr st'"
    and "cand_alcs st' t = Some l" and "a \<in> set l"
  shows "\<exists>ts tt est.
           CalcSlack env (approx_ntk st) (GetSubstitute a) = Some ts
         \<and> CalcSlack env (approx_ntk st) t = Some tt
         \<and> EstSubPairError st' t (GetSubstitute a) = Inr est
         \<and> (if arrival_time ts < arrival_time tt - 1
            then GetError a = min est (1 - est) \<and> GetError a \<le> 1 / 2
            else arrival_time ts = arrival_time tt - 1 \<and> GetError a = est)"
proof -
  from assms(2,3) have "a \<in> set (cand_list st' t)"
    by (simp add: cand_list_def)
  with assms(1) have "cand_ok (CalcSlack env (approx_ntk st)) st' t a"
    using CalcALCs_cand_ok by blast
  then obtain ts tt est where
    f: "CalcSlack env (approx_ntk st) (GetSubstitute a) = Some ts"
       "CalcSlack env (approx_ntk st) t = Some tt"
       "EstSubPairError st' t (GetSubstitute a) = Inr est"
       "arrival_time ts < arrival_time tt"
    and g: "if arrival_time ts < arrival_time tt - 1
       then IsComplemented a = (1 / 2 < est) \<and> GetError a = min est (1 - est)
       else \<not> IsComplemented a \<and> GetError a = est"
    unfolding cand_ok_def by blast
  have "if arrival_time ts < arrival_time tt - 1
            then GetError a = min est (1 - est) \<and> GetError a \<le> 1 / 2
            else arrival_time ts = arrival_time tt - 1 \<and> GetError a = est"
  proof (cases "arrival_time ts < arrival_time tt - 1")
    case True
    with g have "GetError a = min est (1 - est)" by simp
    moreover have "min est (1 - est) \<le> 1 / 2"
      by (cases "est \<le> 1 / 2") (simp_all add: min_def)
    ultimately show ?thesis using True by simp
  next
    case False
    with g f(4) show ?thesis by simp
  qed
  with f(1-3) show ?thesis by blast
qed

text \<open>
  On the example the theorem applies to the candidate of the node 5 whose substitute is
  the input 2, two levels earlier.
\<close>

theorem CalcALCs_stored_error_witness:
  "\<exists>st' l a est. CalcALCs ex_env [4, 5] 2 ex_dals = Inr st' \<and> cand_alcs st' 5 = Some l
     \<and> a \<in> set l \<and> GetSubstitute a = 2 \<and> EstSubPairError st' 5 2 = Inr est
     \<and> GetError a = min est (1 - est) \<and> GetError a \<le> 1 / 2"
proof -
  obtain st' a0 a1 a2 where s: "CalcALCs ex_env [4, 5] 2 ex_dals = Inr st'"
    "cand_alcs st' 5 = Some [a0, a1, a2]" "cand_triple a2 = (5 / 16, True, 2)"
    by (rule ex_cand_5)
  have m: "a2 \<in> set [a0, a1, a2]" by simp
  have sub: "GetSubstitute a2 = 2"
    using s(3) by (simp add: cand_triple_def)
  from CalcALCs_stored_error [OF s(1,2) m]
  obtain est where e: "EstSubPairError st' 5 2 = Inr est"
    "GetError a2 = min est (1 - est)" "GetError a2 \<le> 1 / 2"
    by (auto simp: sub ex_env_def ex_time_info_def)
  show ?thesis
    apply (rule exI [of _ st'])
    apply (rule exI [of _ "[a0, a1, a2]"])
    apply (rule exI [of _ a2])
    apply (rule exI [of _ est])
    using s(1,2) sub e by simp
qed

text \<open>
  The claim as stated fails: the node 4 arrives at time 1 and the input 2 at time 0, one
  level earlier, so the candidate is stored with its estimated error, 11/16.
\<close>

theorem CalcALCs_stored_error_counterexample:
  "cand_triples (CalcALCs ex_env [4, 5] 2 ex_dals) 4 = Inr [(1 / 4, False, 3), (11 / 16, False, 2)]
   \<and> \<not> (11 / 16 \<le> (1 / 2 :: rat))"
proof -
  obtain st' where "CalcALCs ex_env [4, 5] 2 ex_dals = Inr st'"
    "map cand_triple (cand_list st' 4) = [(1 / 4, False, 3), (11 / 16, False, 2)]"
    by (rule ex_CalcALCs_result)
  then show ?thesis by (simp add: cand_triples_def)
qed

subsection \<open>Complemented candidates\<close>

text \<open>
  C4.  Every candidate that \<^verbatim>\<open>CalcALCs\<close> leaves in \<^verbatim>\<open>cand_alcs_\<close> with
  \<^verbatim>\<open>is_complemented_\<close> set has a substitute whose arrival time is strictly less than
  the arrival time of the target minus 1, an estimated pair error above one half, and
  \<open>min est_error (1 - est_error)\<close> as its stored error.
\<close>

theorem CalcALCs_complemented:
  assumes "CalcALCs env target_nodes top_k st = Inr st'"
    and "cand_alcs st' t = Some l" and "a \<in> set l" and "IsComplemented a"
  shows "\<exists>ts tt est.
           CalcSlack env (approx_ntk st) (GetSubstitute a) = Some ts
         \<and> CalcSlack env (approx_ntk st) (GetTarget a) = Some tt
         \<and> EstSubPairError st' (GetTarget a) (GetSubstitute a) = Inr est
         \<and> arrival_time ts < arrival_time tt - 1
         \<and> 1 / 2 < est
         \<and> GetError a = min est (1 - est)"
proof -
  from assms(2,3) have "a \<in> set (cand_list st' t)"
    by (simp add: cand_list_def)
  with assms(1) have ok: "cand_ok (CalcSlack env (approx_ntk st)) st' t a"
    using CalcALCs_cand_ok by blast
  then have tg: "GetTarget a = t"
    by (simp add: cand_ok_def)
  from ok obtain ts tt est where
    f: "CalcSlack env (approx_ntk st) (GetSubstitute a) = Some ts"
       "CalcSlack env (approx_ntk st) t = Some tt"
       "EstSubPairError st' t (GetSubstitute a) = Inr est"
    and g: "if arrival_time ts < arrival_time tt - 1
       then IsComplemented a = (1 / 2 < est) \<and> GetError a = min est (1 - est)
       else \<not> IsComplemented a \<and> GetError a = est"
    unfolding cand_ok_def by blast
  from g assms(4) have "arrival_time ts < arrival_time tt - 1 \<and> 1 / 2 < est
      \<and> GetError a = min est (1 - est)"
    by (cases "arrival_time ts < arrival_time tt - 1") simp_all
  with f tg show ?thesis by blast
qed

theorem CalcALCs_complemented_witness:
  "\<exists>st' l a est. CalcALCs ex_env [4, 5] 2 ex_dals = Inr st' \<and> cand_alcs st' 5 = Some l
     \<and> a \<in> set l \<and> IsComplemented a \<and> GetSubstitute a = 2
     \<and> EstSubPairError st' (GetTarget a) 2 = Inr est \<and> 1 / 2 < est
     \<and> GetError a = min est (1 - est)"
proof -
  obtain st' a0 a1 a2 where s: "CalcALCs ex_env [4, 5] 2 ex_dals = Inr st'"
    "cand_alcs st' 5 = Some [a0, a1, a2]" "cand_triple a2 = (5 / 16, True, 2)"
    by (rule ex_cand_5)
  have m: "a2 \<in> set [a0, a1, a2]" by simp
  have sub: "GetSubstitute a2 = 2" and c: "IsComplemented a2"
    using s(3) by (simp_all add: cand_triple_def)
  from CalcALCs_complemented [OF s(1,2) m c]
  obtain est where e: "EstSubPairError st' (GetTarget a2) 2 = Inr est"
    "1 / 2 < est" "GetError a2 = min est (1 - est)"
    by (auto simp: sub)
  show ?thesis
    apply (rule exI [of _ st'])
    apply (rule exI [of _ "[a0, a1, a2]"])
    apply (rule exI [of _ a2])
    apply (rule exI [of _ est])
    using s(1,2) sub c e by simp
qed

subsection \<open>A target without candidates\<close>

text \<open>
  C5, as amended.  A target for which no substitute passes the filter is not skipped:
  its list \<^verbatim>\<open>k_alcs\<close> is empty, line 190 takes \<^verbatim>\<open>k_alcs.front()\<close>, and \<^verbatim>\<open>CalcALCs\<close>
  does not complete.  Nor does the construction of the flow graph omit an object
  without entry: for an object of slack 0 that is not a primary input and has no entry
  in \<^verbatim>\<open>opt_alc_\<close>, line 228 calls \<^verbatim>\<open>opt_alc_.at\<close>, which throws, and no flow graph
  is built.
\<close>

theorem CalcALCs_no_candidate:
  "(t \<in> set target_nodes
      \<and> (\<forall>s \<in> set (NtkTopoSortPINode env (approx_ntk st)).
            \<not> passes_filter (CalcSlack env (approx_ntk st)) t s)
      \<longrightarrow> (\<exists>e. CalcALCs env target_nodes top_k st = Inl e))
   \<and> (t \<in> set pis_nodes_0 \<and> \<not> ObjIsPI env (approx_ntk st) t \<and> opt_alc st t = None
      \<longrightarrow> node_arcs env st N t = Inl OutOfRange
          \<and> (\<exists>e. flow_arcs env st N pis_nodes_0 = Inl e))"
proof (intro conjI impI)
  assume h: "t \<in> set target_nodes
      \<and> (\<forall>s \<in> set (NtkTopoSortPINode env (approx_ntk st)).
            \<not> passes_filter (CalcSlack env (approx_ntk st)) t s)"
  show "\<exists>e. CalcALCs env target_nodes top_k st = Inl e"
  proof (cases "CalcALCs env target_nodes top_k st")
    case (Inl e)
    then show ?thesis by simp
  next
    case (Inr st')
    from Inr obtain st3 st4 where
      p3: "foldM_err (calc_opt env top_k) target_nodes st4 = Inr st'"
      by (rule CalcALCs_phases)
    from opt_loop_Inr [OF p3] h have ne: "cand_list st4 t \<noteq> []"
      and sc: "same_cands st4 st'"
      by simp_all
    from sc have "cand_list st' t = cand_list st4 t"
      by (simp add: same_cands_def cand_list_def)
    moreover from ne obtain a rest where "cand_list st4 t = a # rest"
      by (cases "cand_list st4 t") simp_all
    ultimately have a: "a \<in> set (cand_list st' t)" by simp
    from CalcALCs_cand_ok [OF Inr a]
    have "passes_filter (CalcSlack env (approx_ntk st)) t (GetSubstitute a)"
      and "GetSubstitute a \<in> set (NtkTopoSortPINode env (approx_ntk st))"
      by (auto simp: cand_ok_def passes_filter_def)
    with h show ?thesis by blast
  qed
next
  assume h: "t \<in> set pis_nodes_0 \<and> \<not> ObjIsPI env (approx_ntk st) t \<and> opt_alc st t = None"
  then show n: "node_arcs env st N t = Inl OutOfRange"
    by (simp add: node_arcs_def)
  then have "\<exists>e. add_node_arcs env st N t acc = Inl e" for acc
    by (simp add: add_node_arcs_def)
  with h have "\<exists>e. foldM_err (add_node_arcs env st N) pis_nodes_0 [] = Inl e"
    by (intro foldM_err_Inl [of t]) simp_all
  then show "\<exists>e. flow_arcs env st N pis_nodes_0 = Inl e"
    by (auto simp: flow_arcs_def)
qed

text \<open>
  On the network with a constant node, the node 3 is the only target of the round and
  no object arrives before it.
\<close>

theorem CalcALCs_no_candidate_witness:
  "filter (passes_filter (CalcSlack ex_const_env (approx_ntk ex_const_dals)) 3)
     (NtkTopoSortPINode ex_const_env (approx_ntk ex_const_dals)) = []
   \<and> (\<exists>e. CalcALCs ex_const_env [3] 3 ex_const_dals = Inl e)
   \<and> opt_alc ex_const_dals 3 = None
   \<and> node_arcs ex_const_env ex_const_dals 5 3 = Inl OutOfRange
   \<and> (\<exists>e. flow_arcs ex_const_env ex_const_dals 5 [2, 3] = Inl e)"
proof -
  have f: "filter (passes_filter (CalcSlack ex_const_env (approx_ntk ex_const_dals)) 3)
     (NtkTopoSortPINode ex_const_env (approx_ntk ex_const_dals)) = []"
    by (simp add: ex_const_env_def ex_const_time_info_def passes_filter_def)
  then have h: "\<forall>s \<in> set (NtkTopoSortPINode ex_const_env (approx_ntk ex_const_dals)).
             \<not> passes_filter (CalcSlack ex_const_env (approx_ntk ex_const_dals)) 3 s"
    by (simp add: filter_empty_conv)
  have m: "3 \<in> set [3 :: obj]" "3 \<in> set [2, 3 :: obj]" by simp_all
  have p: "\<not> ObjIsPI ex_const_env (approx_ntk ex_const_dals) 3"
    "opt_alc ex_const_dals 3 = None"
    by (simp_all add: ex_const_env_def ex_const_dals_def)
  from CalcALCs_no_candidate [of 3 "[3]" ex_const_env ex_const_dals 3 "[2, 3]" 5] h m p f
  show ?thesis by simp
qed

text \<open>
  The claim as stated fails: with the node 3 as target, the only one \<^verbatim>\<open>Run\<close> passes on
  this network, \<^verbatim>\<open>CalcALCs\<close> does not complete, and neither does the round.
\<close>

theorem CalcALCs_no_candidate_counterexample:
  "filter (passes_filter (CalcSlack ex_const_env (approx_ntk ex_const_dals)) 3)
     (NtkTopoSortPINode ex_const_env (approx_ntk ex_const_dals)) = []
   \<and> ObjIsNode ex_const_env (approx_ntk ex_const_dals) 3
   \<and> CalcALCs ex_const_env [3] 3 ex_const_dals = Inl UndefinedBehaviour
   \<and> Run_round ex_const_env ex_const_dals = Inl UndefinedBehaviour"
  using ex_const_CalcALCs ex_const_round
  by (simp add: ex_const_env_def ex_const_time_info_def passes_filter_def)

subsection \<open>The order and the length of a candidate list\<close>

text \<open>
  C8, as amended.  After \<^verbatim>\<open>CalcALCs\<close> returns, the list \<^verbatim>\<open>cand_alcs_[t]\<close> of a target
  \<open>t\<close> (the targets being distinct) holds one candidate for every substitute that
  passed the filter: the list is not truncated.  When at most \<open>top_k\<close> candidates
  pass, the list is ascending by stored error.  When more pass, its first \<open>top_k\<close>
  entries are ascending by stored error and none of them has a larger stored error than
  a later entry, so they are \<open>top_k\<close> smallest; the later entries are in no particular
  order.  Entries of equal stored error are in the order the sort of the library
  leaves them, which need not be the order of enumeration.
\<close>

theorem CalcALCs_ranking:
  assumes "CalcALCs env target_nodes top_k st = Inr st'"
    and "distinct target_nodes" and "t \<in> set target_nodes"
  shows "\<exists>l. cand_alcs st' t = Some l
         \<and> mset (map GetSubstitute l)
             = mset (filter (passes_filter (CalcSlack env (approx_ntk st)) t)
                       (NtkTopoSortPINode env (approx_ntk st)))
         \<and> (length l \<le> top_k \<longrightarrow> sorted (map GetError l))
         \<and> sorted (map GetError (take top_k l))
         \<and> (\<forall>a \<in> set (take top_k l). \<forall>b \<in> set (drop top_k l). GetError a \<le> GetError b)"
proof -
  let ?ti = "CalcSlack env (approx_ntk st)"
  let ?ss = "NtkTopoSortPINode env (approx_ntk st)"
  from assms(1) obtain st3 st4 where
    e3: "\<forall>t. cand_list st3 t = []"
    and p2: "foldM_err (calc_cands env ?ti ?ss top_k) target_nodes st3 = Inr st4"
    and p3: "foldM_err (calc_opt env top_k) target_nodes st4 = Inr st'"
    by (rule CalcALCs_phases)
  from e3 have "\<forall>t \<in> set target_nodes. cand_list st3 t = []" by simp
  from t_loop_ranked [OF p2 assms(2) this assms(3)]
  have r: "cand_alcs st4 t = Some (cand_list st4 t)"
    "mset (map GetSubstitute (cand_list st4 t)) = mset (filter (passes_filter ?ti t) ?ss)"
    "ranked top_k (cand_list st4 t)"
    by simp_all
  have w: "length (cand_list st4 t) \<le> top_k \<longrightarrow> sorted (map GetError (cand_list st4 t))"
  proof
    assume "length (cand_list st4 t) \<le> top_k"
    then have "take top_k (cand_list st4 t) = cand_list st4 t" by simp
    with r(3) show "sorted (map GetError (cand_list st4 t))" by (simp add: ranked_def)
  qed
  from opt_loop_Inr [OF p3] have "cand_alcs st' = cand_alcs st4"
    by (simp add: same_cands_def)
  with r w show ?thesis
    by (intro exI [of _ "cand_list st4 t"]) (simp add: ranked_def)
qed

theorem CalcALCs_ranking_witness:
  "\<exists>st' l. CalcALCs ex_env [4, 5] 2 ex_dals = Inr st' \<and> cand_alcs st' 5 = Some l
     \<and> mset (map GetSubstitute l) = mset [2, 3, 4]
     \<and> sorted (map GetError (take 2 l))"
proof -
  obtain st' where s: "CalcALCs ex_env [4, 5] 2 ex_dals = Inr st'"
    by (rule ex_CalcALCs_result)
  have f: "filter (passes_filter (CalcSlack ex_env (approx_ntk ex_dals)) 5)
             (NtkTopoSortPINode ex_env (approx_ntk ex_dals)) = [2, 3, 4]"
    by (simp add: ex_env_def ex_time_info_def passes_filter_def)
  have d: "distinct [4, 5 :: obj]" and i: "5 \<in> set [4, 5 :: obj]" by simp_all
  from CalcALCs_ranking [OF s d i] obtain l where l: "cand_alcs st' 5 = Some l"
    "mset (map GetSubstitute l) = mset [2, 3, 4]" "sorted (map GetError (take 2 l))"
    unfolding f by (elim exE conjE)
  show ?thesis
    apply (rule exI [of _ st'])
    apply (rule exI [of _ l])
    using s l by simp
qed

text \<open>
  The claim as stated fails in its three parts.  With \<open>top_k = 2\<close> the list of the
  node 5 keeps its three candidates.  With \<open>top_k = 1\<close> the two entries after the
  first are not ascending.  With the truth vectors \<open>ex_tie_vec\<close> the substitutes 2 and 4
  have the same stored error, 2 is enumerated before 4, and 4 comes first in the list.
\<close>

theorem CalcALCs_ranking_counterexample:
  "cand_triples (CalcALCs ex_env [4, 5] 2 ex_dals) 5
     = Inr [(0, False, 4), (1 / 4, False, 3), (5 / 16, True, 2)]
   \<and> \<not> (length [(0 :: rat, False, 4 :: obj), (1 / 4, False, 3), (5 / 16, True, 2)] \<le> 2)
   \<and> cand_triples (CalcALCs ex_env [4, 5] 1 ex_dals) 5
     = Inr [(0, False, 4), (5 / 16, True, 2), (1 / 4, False, 3)]
   \<and> \<not> (5 / 16 \<le> (1 / 4 :: rat))
   \<and> cand_triples (CalcALCs ex_tie_env [4, 5] 2 ex_dals) 5
     = Inr [(0, False, 4), (0, False, 2), (1 / 4, False, 3)]
   \<and> NtkTopoSortPINode ex_tie_env (approx_ntk ex_dals) = [2, 3, 4, 5]"
proof -
  obtain st' where "CalcALCs ex_env [4, 5] 2 ex_dals = Inr st'"
    "map cand_triple (cand_list st' 5) = [(0, False, 4), (1 / 4, False, 3), (5 / 16, True, 2)]"
    by (rule ex_CalcALCs_result)
  then have "cand_triples (CalcALCs ex_env [4, 5] 2 ex_dals) 5
     = Inr [(0, False, 4), (1 / 4, False, 3), (5 / 16, True, 2)]"
    by (simp add: cand_triples_def)
  moreover have "NtkTopoSortPINode ex_tie_env (approx_ntk ex_dals) = [2, 3, 4, 5]"
    by (simp add: ex_tie_env_def ex_env_def)
  ultimately show ?thesis
    using ex_CalcALCs_top_1 ex_CalcALCs_tie by simp
qed

subsection \<open>Entries already in the map\<close>

text \<open>
  C10.  An entry that \<^verbatim>\<open>opt_alc_\<close> holds for a node before a call of \<^verbatim>\<open>CalcALCs\<close>
  is the entry it holds for that node after the call, whether or not the node is
  among the targets: \<^verbatim>\<open>emplace\<close> does not overwrite.
\<close>

theorem CalcALCs_keeps_opt_alc:
  assumes "CalcALCs env target_nodes top_k st = Inr st'" and "opt_alc st t = Some a"
  shows "opt_alc st' t = Some a"
proof -
  from assms(1) obtain st3 st4 where
    o3: "opt_alc st3 = opt_alc st"
    and p2: "foldM_err (calc_cands env (CalcSlack env (approx_ntk st))
               (NtkTopoSortPINode env (approx_ntk st)) top_k) target_nodes st3 = Inr st4"
    and p3: "foldM_err (calc_opt env top_k) target_nodes st4 = Inr st'"
    by (rule CalcALCs_phases)
  have "same_frame st3 st4"
    using p2
  proof (induction target_nodes arbitrary: st3)
    case Nil
    then show ?case by simp
  next
    case (Cons u us)
    from Cons.prems obtain st1 where
      s1: "calc_cands env (CalcSlack env (approx_ntk st)) (NtkTopoSortPINode env (approx_ntk st)) top_k u st3 = Inr st1"
      and rest: "foldM_err (calc_cands env (CalcSlack env (approx_ntk st))
               (NtkTopoSortPINode env (approx_ntk st)) top_k) us st1 = Inr st4"
      by (auto split: sum.splits)
    from calc_cands_Inr(1) [OF s1] Cons.IH [OF rest] show ?case
      by (rule same_frame_trans)
  qed
  then have "opt_alc st4 = opt_alc st"
    using o3 by (simp add: same_frame_def)
  with assms(2) opt_loop_Inr [OF p3] show ?thesis by simp
qed

theorem CalcALCs_keeps_opt_alc_witness:
  "\<exists>st'. CalcALCs ex_env [4, 5] 2 ex_dals = Inr st' \<and> opt_alc ex_dals 5 = Some ex_stale
     \<and> opt_alc st' 5 = Some ex_stale \<and> map_option cand_triple (opt_alc st' 4) = Some (0, False, 2)"
proof -
  obtain st' where s: "CalcALCs ex_env [4, 5] 2 ex_dals = Inr st'"
    "map_option cand_triple (opt_alc st' 4) = Some (0, False, 2)"
    by (rule ex_CalcALCs_result)
  have o: "opt_alc ex_dals 5 = Some ex_stale"
    by (simp add: ex_dals_def)
  from CalcALCs_keeps_opt_alc [OF s(1) o] have "opt_alc st' 5 = Some ex_stale" .
  with s o show ?thesis
    by (intro exI [of _ st']) simp
qed

section \<open>Do and Recover\<close>

subsection \<open>The snapshot\<close>

lemma foldl_push_fan_in_map:
  "target_fan_out_fan_ins (foldl (push_fan_in f) a gs) =
     (if gs = [] then target_fan_out_fan_ins a
      else (target_fan_out_fan_ins a)
             (f \<mapsto> (case target_fan_out_fan_ins a f of None \<Rightarrow> [] | Some l \<Rightarrow> l) @ gs))"
proof (induction gs arbitrary: a)
  case Nil
  then show ?case by simp
next
  case (Cons g gs)
  have step: "foldl (push_fan_in f) a (g # gs) = foldl (push_fan_in f) (push_fan_in f a g) gs"
    by simp
  have m1: "target_fan_out_fan_ins (push_fan_in f a g) =
      (target_fan_out_fan_ins a)
        (f \<mapsto> (case target_fan_out_fan_ins a f of None \<Rightarrow> [] | Some l \<Rightarrow> l) @ [g])"
    by (simp add: push_fan_in_def)
  show ?case
    by (simp only: step Cons.IH m1) (auto simp: fun_eq_iff)
qed

lemma snapshot_fan_out_props:
  "target_fan_outs (snapshot_fan_out n a f) = target_fan_outs a @ [f]"
  "target_fan_out_fan_ins (snapshot_fan_out n a f) =
     (if fanins n f = [] then target_fan_out_fan_ins a
      else (target_fan_out_fan_ins a)
             (f \<mapsto> (case target_fan_out_fan_ins a f of None \<Rightarrow> [] | Some l \<Rightarrow> l) @ fanins n f))"
  by (simp_all add: snapshot_fan_out_def foldl_push_fan_in_fields foldl_push_fan_in_map ObjFanins_def)

lemma foldl_snapshot_props:
  assumes "distinct fs" and "\<forall>f \<in> set fs. target_fan_out_fan_ins a f = None"
    and "\<forall>f \<in> set fs. fanins n f \<noteq> []"
  shows "target_fan_outs (foldl (snapshot_fan_out n) a fs) = target_fan_outs a @ fs
     \<and> target_fan_out_fan_ins (foldl (snapshot_fan_out n) a fs) =
         (\<lambda>f. if f \<in> set fs then Some (fanins n f) else target_fan_out_fan_ins a f)"
  using assms
proof (induction fs arbitrary: a)
  case Nil
  then show ?case by simp
next
  case (Cons f fs)
  let ?a1 = "snapshot_fan_out n a f"
  have m1: "target_fan_out_fan_ins ?a1 = (target_fan_out_fan_ins a)(f \<mapsto> fanins n f)"
    using Cons.prems by (simp add: snapshot_fan_out_props)
  have d: "distinct fs" and nf: "f \<notin> set fs" using Cons.prems(1) by simp_all
  have none: "\<forall>g \<in> set fs. target_fan_out_fan_ins ?a1 g = None"
    using Cons.prems(2) nf by (auto simp: m1)
  have ne: "\<forall>g \<in> set fs. fanins n g \<noteq> []" using Cons.prems(3) by simp
  from Cons.IH [OF d none ne] show ?case
    by (auto simp: snapshot_fan_out_props(1) m1)
qed

lemma ALC_new_snapshot:
  assumes "distinct (fanouts n t)" and "\<forall>f \<in> set (fanouts n t). fanins n f \<noteq> []"
  shows "target_fan_outs (ALC_new n t s c e) = fanouts n t"
    and "target_fan_out_fan_ins (ALC_new n t s c e) =
           (\<lambda>f. if f \<in> set (fanouts n t) then Some (fanins n f) else None)"
proof -
  define a0 where "a0 = \<lparr>GetError = e, IsComplemented = c, GetTarget = t, GetSubstitute = s,
          inv_node = None, target_fan_outs = [], target_fan_out_fan_ins = Map.empty\<rparr>"
  have new: "ALC_new n t s c e = foldl (snapshot_fan_out n) a0 (fanouts n t)"
    by (simp add: ALC_new_def ObjFanouts_def a0_def)
  have e: "target_fan_outs a0 = []" "\<And>f. target_fan_out_fan_ins a0 f = None"
    by (simp_all add: a0_def)
  then have init: "\<forall>f \<in> set (fanouts n t). target_fan_out_fan_ins a0 f = None" by simp
  note p = foldl_snapshot_props [OF assms(1) init assms(2)]
  from p show "target_fan_outs (ALC_new n t s c e) = fanouts n t"
    unfolding new by (simp add: e)
  from p show "target_fan_out_fan_ins (ALC_new n t s c e) =
           (\<lambda>f. if f \<in> set (fanouts n t) then Some (fanins n f) else None)"
    unfolding new by (simp add: e cong: if_cong)
qed

subsection \<open>Restoring the fan-ins of one fan-out\<close>

lemma count_list_removeAll:
  "count_list (removeAll a xs) x = (if x = a then 0 else count_list xs x)"
  by (induction xs) auto

lemma foldl_AddFanin:
  "objs (foldl (\<lambda>m g. Abc_ObjAddFanin m f g) m0 l) = objs m0
   \<and> fanins (foldl (\<lambda>m g. Abc_ObjAddFanin m f g) m0 l) = (fanins m0)(f := fanins m0 f @ l)
   \<and> (\<forall>g f'. count_list (fanouts (foldl (\<lambda>m g. Abc_ObjAddFanin m f g) m0 l) g) f'
         = count_list (fanouts m0 g) f' + (if f' = f then count_list l g else 0))"
proof (induction l arbitrary: m0)
  case Nil
  then show ?case by simp
next
  case (Cons h l)
  show ?case
    by (simp add: Cons.IH) (auto simp: Abc_ObjAddFanin_def fun_eq_iff)
qed

lemma restore_fan_out_props:
  assumes "target_fan_out_fan_ins a f = Some l"
  shows "\<exists>m'. restore_fan_out a f m = Inr m' \<and> objs m' = objs m
     \<and> fanins m' = (fanins m)(f := l)
     \<and> (\<forall>g f'. count_list (fanouts m' g) f'
           = (if f' = f then count_list l g else count_list (fanouts m g) f'))"
proof -
  let ?m0 = "Abc_ObjRemoveFanins m f"
  let ?m' = "foldl (\<lambda>m g. Abc_ObjAddFanin m f g) ?m0 l"
  have r: "restore_fan_out a f m = Inr ?m'"
    using assms by (simp add: restore_fan_out_def)
  note p = foldl_AddFanin [of f ?m0 l]
  have o: "objs ?m' = objs m" using p by (simp add: Abc_ObjRemoveFanins_def)
  have i: "fanins ?m' = (fanins m)(f := l)"
    using p by (simp add: Abc_ObjRemoveFanins_def)
  have c: "\<forall>g f'. count_list (fanouts ?m' g) f'
           = (if f' = f then count_list l g else count_list (fanouts m g) f')"
    using p by (simp add: Abc_ObjRemoveFanins_def count_list_removeAll)
  from r o i c show ?thesis by blast
qed

lemma restore_loop_props:
  assumes "distinct fs" and "\<forall>f \<in> set fs. target_fan_out_fan_ins a f = Some (sv f)"
  shows "\<exists>m'. foldM_err (restore_fan_out a) fs m = Inr m' \<and> objs m' = objs m
     \<and> fanins m' = (\<lambda>f. if f \<in> set fs then sv f else fanins m f)
     \<and> (\<forall>g f'. count_list (fanouts m' g) f'
           = (if f' \<in> set fs then count_list (sv f') g else count_list (fanouts m g) f'))"
  using assms
proof (induction fs arbitrary: m)
  case Nil
  then show ?case by simp
next
  case (Cons f fs)
  from Cons.prems(2) have sf: "target_fan_out_fan_ins a f = Some (sv f)" by simp
  from restore_fan_out_props [OF sf, of m] obtain m1 where
    m1: "restore_fan_out a f m = Inr m1" "objs m1 = objs m" "fanins m1 = (fanins m)(f := sv f)"
    "\<forall>g f'. count_list (fanouts m1 g) f'
           = (if f' = f then count_list (sv f) g else count_list (fanouts m g) f')"
    by blast
  have d: "distinct fs" and nf: "f \<notin> set fs" using Cons.prems(1) by simp_all
  have s: "\<forall>g \<in> set fs. target_fan_out_fan_ins a g = Some (sv g)" using Cons.prems(2) by simp
  from Cons.IH [OF d s, of m1] obtain m' where
    m': "foldM_err (restore_fan_out a) fs m1 = Inr m'" "objs m' = objs m1"
    "fanins m' = (\<lambda>f. if f \<in> set fs then sv f else fanins m1 f)"
    "\<forall>g f'. count_list (fanouts m' g) f'
           = (if f' \<in> set fs then count_list (sv f') g else count_list (fanouts m1 g) f')"
    by blast
  have 1: "foldM_err (restore_fan_out a) (f # fs) m = Inr m'"
    using m1(1) m'(1) by simp
  have 2: "objs m' = objs m" using m1(2) m'(2) by simp
  have 3: "fanins m' = (\<lambda>g. if g \<in> set (f # fs) then sv g else fanins m g)"
    using m1(3) m'(3) nf by (auto simp: fun_eq_iff)
  have 4: "\<forall>g f'. count_list (fanouts m' g) f'
           = (if f' \<in> set (f # fs) then count_list (sv f') g else count_list (fanouts m g) f')"
    using m1(4) m'(4) nf by auto
  from 1 2 3 4 show ?case by blast
qed

lemma foldr_max_ge: "x \<in> set xs \<Longrightarrow> x \<le> foldr max xs (0 :: nat)"
  by (induction xs) auto

lemma new_id_fresh: "new_id n \<notin> set (objs n)"
  using foldr_max_ge [of "new_id n" "objs n"] by (auto simp: new_id_def)

lemma wf_fanout_has_fanin:
  assumes "ntk_wf n" and "f \<in> set (fanouts n t)"
  shows "t \<in> set (fanins n f)"
proof -
  from assms(2) have "count_list (fanouts n t) f \<noteq> 0"
    by (simp add: count_list_0_iff)
  with assms(1) have "count_list (fanins n f) t \<noteq> 0"
    by (simp add: ntk_wf_def)
  then show ?thesis by (simp add: count_list_0_iff)
qed

lemma wf_not_in_fanins:
  assumes "ntk_wf n" and "i \<notin> set (objs n)"
  shows "i \<notin> set (fanins n f)" and "fanins n i = []" and "count_list (fanouts n g) i = 0"
    and "count_list (fanouts n i) f = 0"
proof -
  show 1: "i \<notin> set (fanins n f)" for f
    using assms by (auto simp: ntk_wf_def)
  show 2: "fanins n i = []" using assms by (simp add: ntk_wf_def)
  have "count_list (fanouts n g) i = count_list (fanins n i) g"
    using assms(1) by (simp add: ntk_wf_def)
  with 2 show "count_list (fanouts n g) i = 0" by simp
  have "count_list (fanouts n i) f = count_list (fanins n f) i"
    using assms(1) by (simp add: ntk_wf_def)
  with 1 [of f] show "count_list (fanouts n i) f = 0" by (simp add: count_list_0_iff)
qed

lemma round_trip_plain:
  assumes wf: "ntk_wf n" and ts: "t \<noteq> s" and d: "distinct (fanouts n t)"
  shows "\<exists>n''. Recover (ALC_new n t s False e) (ObjReplace n t s) = Inr n''
     \<and> objs n'' = objs n \<and> fanins n'' = fanins n
     \<and> (\<forall>g f. count_list (fanouts n'' g) f = count_list (fanouts n g) f)"
proof -
  let ?F = "fanouts n t"
  let ?a = "ALC_new n t s False e"
  let ?n1 = "ObjReplace n t s"
  have ne: "\<forall>f \<in> set ?F. fanins n f \<noteq> []"
    using wf_fanout_has_fanin [OF wf] by fastforce
  note sn = ALC_new_snapshot [OF d ne, of s False e]
  have sv: "\<forall>f \<in> set (target_fan_outs ?a). target_fan_out_fan_ins ?a f = Some (fanins n f)"
    by (simp add: sn)
  have d': "distinct (target_fan_outs ?a)" by (simp add: sn d)
  from restore_loop_props [OF d' sv, of ?n1] obtain n'' where
    r: "foldM_err (restore_fan_out ?a) (target_fan_outs ?a) ?n1 = Inr n''"
    and o: "objs n'' = objs ?n1"
    and i: "fanins n'' = (\<lambda>f. if f \<in> set (target_fan_outs ?a) then fanins n f else fanins ?n1 f)"
    and c: "\<forall>g f'. count_list (fanouts n'' g) f'
           = (if f' \<in> set (target_fan_outs ?a) then count_list (fanins n f') g
              else count_list (fanouts ?n1 g) f')"
    by blast
  have 1: "Recover ?a ?n1 = Inr n''"
    using r by (simp add: Recover_def)
  have 2: "objs n'' = objs n" using o by (simp add: ObjReplace_def)
  have 3: "fanins n'' = fanins n"
    unfolding i by (auto simp: sn ObjReplace_def fun_eq_iff)
  have 4: "count_list (fanouts n'' g) f = count_list (fanouts n g) f" for g f
  proof (cases "f \<in> set ?F")
    case True
    with c have "count_list (fanouts n'' g) f = count_list (fanins n f) g" by (simp add: sn)
    with wf show ?thesis by (simp add: ntk_wf_def)
  next
    case False
    with c have "count_list (fanouts n'' g) f = count_list (fanouts ?n1 g) f" by (simp add: sn)
    also have "\<dots> = count_list (fanouts n g) f"
      using False ts by (auto simp: ObjReplace_def count_list_0_iff)
    finally show ?thesis .
  qed
  from 1 2 3 4 show ?thesis by blast
qed

lemma round_trip_inv:
  assumes wf: "ntk_wf n" and tin: "t \<in> set (objs n)" and ts: "t \<noteq> s"
    and d: "distinct (fanouts n t)"
  shows "\<exists>n''. Recover ((ALC_new n t s True e)\<lparr>inv_node := Some (new_id n)\<rparr>)
                  (ObjReplace (snd (ObjCreateInv n s)) t (new_id n)) = Inr n''
     \<and> objs n'' = objs n \<and> fanins n'' = fanins n
     \<and> (\<forall>g f. count_list (fanouts n'' g) f = count_list (fanouts n g) f)"
proof -
  let ?F = "fanouts n t"
  let ?i = "new_id n"
  let ?a = "(ALC_new n t s True e)\<lparr>inv_node := Some ?i\<rparr>"
  let ?n0 = "snd (ObjCreateInv n s)"
  let ?n1 = "ObjReplace ?n0 t ?i"
  let ?n2 = "ObjDelete ?n1 ?i"
  have fresh: "?i \<notin> set (objs n)" by (rule new_id_fresh)
  note nf = wf_not_in_fanins [OF wf fresh]
  have it: "?i \<noteq> t" using fresh tin by auto
  have iF: "?i \<notin> set ?F"
    using nf(3) [of t] by (simp add: count_list_0_iff)
  have ne: "\<forall>f \<in> set ?F. fanins n f \<noteq> []"
    using wf_fanout_has_fanin [OF wf] by fastforce
  note sn = ALC_new_snapshot [OF d ne, of s True e]
  have tfo: "target_fan_outs ?a = ?F" by (simp add: sn)
  have sv: "\<forall>f \<in> set (target_fan_outs ?a). target_fan_out_fan_ins ?a f = Some (fanins n f)"
    by (simp add: sn)
  have d': "distinct (target_fan_outs ?a)" by (simp add: sn d)
  have n0: "objs ?n0 = objs n @ [?i]" "fanins ?n0 = (fanins n)(?i := [s])"
    "fanouts ?n0 = (fanouts n)(s := fanouts n s @ [?i])"
    by (simp_all add: ObjCreateInv_def Let_def)
  have F0: "fanouts ?n0 t = ?F" using ts by (simp add: n0)
  have n1: "objs ?n1 = objs n @ [?i]"
    "fanins ?n1 = (\<lambda>f. if f \<in> set ?F then map (\<lambda>x. if x = t then ?i else x) (fanins ?n0 f)
                        else fanins ?n0 f)"
    "fanouts ?n1 = (fanouts ?n0)(?i := fanouts ?n0 ?i @ ?F, t := [])"
    by (simp_all add: ObjReplace_def n0(1) F0)
  have n2: "objs ?n2 = objs n"
    "fanins ?n2 = (\<lambda>f. if f = ?i then [] else removeAll ?i (fanins ?n1 f))"
    "fanouts ?n2 = (\<lambda>g. if g = ?i then [] else removeAll ?i (fanouts ?n1 g))"
    using fresh by (simp_all add: ObjDelete_def n1(1))
  from restore_loop_props [OF d' sv, of ?n2] obtain n'' where
    r: "foldM_err (restore_fan_out ?a) (target_fan_outs ?a) ?n2 = Inr n''"
    and o: "objs n'' = objs ?n2"
    and i: "fanins n'' = (\<lambda>f. if f \<in> set (target_fan_outs ?a) then fanins n f else fanins ?n2 f)"
    and c: "\<forall>g f'. count_list (fanouts n'' g) f'
           = (if f' \<in> set (target_fan_outs ?a) then count_list (fanins n f') g
              else count_list (fanouts ?n2 g) f')"
    by blast
  have 1: "Recover ?a ?n1 = Inr n''"
    using r by (simp add: Recover_def)
  have 2: "objs n'' = objs n" using o n2(1) by simp
  have keep: "fanins ?n2 f = fanins n f" if "f \<notin> set ?F" for f
  proof (cases "f = ?i")
    case True
    then show ?thesis by (simp add: n2(2) nf(2))
  next
    case False
    with that have "fanins ?n2 f = removeAll ?i (fanins n f)"
      by (simp add: n2(2) n1(2) n0(2))
    with nf(1) [of f] show ?thesis by simp
  qed
  have 3: "fanins n'' = fanins n"
    unfolding i tfo using keep by (auto simp: fun_eq_iff)
  have 4: "count_list (fanouts n'' g) f = count_list (fanouts n g) f" for g f
  proof (cases "f \<in> set ?F")
    case True
    with c have "count_list (fanouts n'' g) f = count_list (fanins n f) g" by (simp add: tfo)
    with wf show ?thesis by (simp add: ntk_wf_def)
  next
    case False
    with c have e: "count_list (fanouts n'' g) f = count_list (fanouts ?n2 g) f"
      by (simp add: tfo)
    show ?thesis
    proof (cases "g = ?i")
      case True
      then show ?thesis using e nf(4) [of f] by (simp add: n2(3))
    next
      case gi: False
      show ?thesis
      proof (cases "f = ?i")
        case True
        then show ?thesis using e gi nf(3) [of g] by (simp add: n2(3) count_list_removeAll)
      next
        case fi: False
        have "count_list (fanouts ?n2 g) f = count_list (fanouts ?n1 g) f"
          using gi fi by (simp add: n2(3) count_list_removeAll)
        also have "\<dots> = count_list (fanouts n g) f"
          using gi fi False by (auto simp: n1(3) n0(3) count_list_0_iff)
        finally show ?thesis using e by simp
      qed
    qed
  qed
  from 1 2 3 4 show ?thesis by blast
qed

lemma mset_eq_count_list:
  "(\<forall>x. count_list xs x = count_list ys x) \<Longrightarrow> mset xs = mset ys"
  by (rule multiset_eqI) (simp add: count_mset)

text \<open>
  On a consistent network, for a target that is an object of the network, is not the
  substitute, and whose fan-out list names each fan-out once, \<^verbatim>\<open>Do\<close> followed by
  \<^verbatim>\<open>Recover\<close> of the change constructed on the network succeeds and returns a network
  with the objects of the original, with the fan-in list of every object as it was,
  element for element, and with the same entries in every fan-out list (\<^verbatim>\<open>Recover\<close>
  appends a restored edge at the end of a fan-out list).  In the complemented case the
  inverter that \<^verbatim>\<open>Do\<close> created is an object after \<^verbatim>\<open>Do\<close> and no longer one after
  \<^verbatim>\<open>Recover\<close>.
\<close>

lemma Do_Recover_round_trip:
  assumes "ntk_wf n" and "t \<in> set (objs n)" and "t \<noteq> s" and "distinct (ObjFanouts n t)"
  shows "\<exists>a' n' n''. Do (ALC_new n t s c e) n = (a', n') \<and> Recover a' n' = Inr n''
     \<and> objs n'' = objs n \<and> fanins n'' = fanins n
     \<and> (\<forall>g. mset (fanouts n'' g) = mset (fanouts n g))
     \<and> (c \<longrightarrow> (\<exists>i. inv_node a' = Some i \<and> i \<notin> set (objs n) \<and> i \<in> set (objs n')
                    \<and> i \<notin> set (objs n'')))"
proof (cases c)
  case False
  from assms(4) have d: "distinct (fanouts n t)" by (simp add: ObjFanouts_def)
  from round_trip_plain [OF assms(1,3) d, of e] obtain n'' where
    r: "Recover (ALC_new n t s False e) (ObjReplace n t s) = Inr n''"
    "objs n'' = objs n" "fanins n'' = fanins n"
    "\<forall>g f. count_list (fanouts n'' g) f = count_list (fanouts n g) f"
    by blast
  have m: "\<forall>g. mset (fanouts n'' g) = mset (fanouts n g)"
    using r(4) by (simp add: mset_eq_count_list)
  have "Do (ALC_new n t s c e) n = (ALC_new n t s False e, ObjReplace n t s)"
    using False by (simp add: Do_def)
  with r(1-3) m False show ?thesis by auto
next
  case True
  let ?i = "new_id n"
  let ?a = "(ALC_new n t s True e)\<lparr>inv_node := Some ?i\<rparr>"
  let ?n1 = "ObjReplace (snd (ObjCreateInv n s)) t ?i"
  from assms(4) have d: "distinct (fanouts n t)" by (simp add: ObjFanouts_def)
  from round_trip_inv [OF assms(1,2,3) d, of e] obtain n'' where
    r: "Recover ?a ?n1 = Inr n''"
    "objs n'' = objs n" "fanins n'' = fanins n"
    "\<forall>g f. count_list (fanouts n'' g) f = count_list (fanouts n g) f"
    by blast
  have m: "\<forall>g. mset (fanouts n'' g) = mset (fanouts n g)"
    using r(4) by (simp add: mset_eq_count_list)
  have do: "Do (ALC_new n t s c e) n = (?a, ?n1)"
    using True by (simp add: Do_def ObjCreateInv_def Let_def)
  have fresh: "?i \<notin> set (objs n)" by (rule new_id_fresh)
  have inn: "?i \<in> set (objs ?n1)"
    by (simp add: ObjReplace_def ObjCreateInv_def Let_def)
  have "inv_node ?a = Some ?i" by simp
  with do r(1-3) m fresh inn show ?thesis by auto
qed

lemma ex_ntk_wf: "ntk_wf ex_ntk"
  unfolding ntk_wf_def
proof (intro conjI allI impI)
  fix v assume "v \<notin> set (objs ex_ntk)"
  then show "fanins ex_ntk v = []" by (simp add: ex_ntk_def)
next
  fix v show "set (fanins ex_ntk v) \<subseteq> set (objs ex_ntk)"
    by (auto simp: ex_ntk_def)
next
  fix f g :: obj
  have "f \<in> {4, 5, 6} \<or> f \<notin> {4, 5, 6}" by blast
  moreover have "g \<in> {2, 3, 4, 5} \<or> g \<notin> {2, 3, 4, 5}" by blast
  ultimately show "count_list (fanouts ex_ntk g) f = count_list (fanins ex_ntk f) g"
    by (auto simp: ex_ntk_def)
qed

lemma Do_Recover_round_trip_example:
  "ntk_wf ex_ntk \<and> distinct (ObjFanouts ex_ntk 4) \<and> distinct (ObjFanouts ex_ntk 5)
   \<and> (\<exists>a' n' n''. Do (ALC_new ex_ntk 4 3 False (1 / 4)) ex_ntk = (a', n')
         \<and> fanins n' 5 = [3, 3] \<and> Recover a' n' = Inr n''
         \<and> objs n'' = objs ex_ntk \<and> fanins n'' = fanins ex_ntk \<and> fanins n'' 5 = [4, 3])
   \<and> (\<exists>a' n' n'' i. Do (ALC_new ex_ntk 5 2 True (5 / 16)) ex_ntk = (a', n')
         \<and> inv_node a' = Some i \<and> i \<in> set (objs n') \<and> fanins n' i = [2] \<and> fanins n' 6 = [i]
         \<and> Recover a' n' = Inr n''
         \<and> objs n'' = objs ex_ntk \<and> fanins n'' = fanins ex_ntk \<and> i \<notin> set (objs n''))"
proof -
  have d4: "distinct (ObjFanouts ex_ntk 4)" and d5: "distinct (ObjFanouts ex_ntk 5)"
    by (simp_all add: ObjFanouts_def ex_ntk_def)
  have i4: "4 \<in> set (objs ex_ntk)" and i5: "5 \<in> set (objs ex_ntk)"
    by (simp_all add: ex_ntk_def)
  have ne4: "(4 :: obj) \<noteq> 3" and ne5: "(5 :: obj) \<noteq> 2" by simp_all
  from Do_Recover_round_trip [OF ex_ntk_wf i4 ne4 d4, of False "1 / 4"]
  obtain a' n' n'' where p: "Do (ALC_new ex_ntk 4 3 False (1 / 4)) ex_ntk = (a', n')"
    "Recover a' n' = Inr n''" "objs n'' = objs ex_ntk" "fanins n'' = fanins ex_ntk"
    by blast
  from p(1) have "n' = ObjReplace ex_ntk 4 3" by (simp add: Do_def)
  then have q1: "fanins n' 5 = [3, 3]"
    by (simp add: ObjReplace_def ex_ntk_def)
  from p(4) have q2: "fanins n'' 5 = [4, 3]" by (simp add: ex_ntk_def)
  have plain: "\<exists>a' n' n''. Do (ALC_new ex_ntk 4 3 False (1 / 4)) ex_ntk = (a', n')
         \<and> fanins n' 5 = [3, 3] \<and> Recover a' n' = Inr n''
         \<and> objs n'' = objs ex_ntk \<and> fanins n'' = fanins ex_ntk \<and> fanins n'' 5 = [4, 3]"
    using p q1 q2 by blast
  from Do_Recover_round_trip [OF ex_ntk_wf i5 ne5 d5, of True "5 / 16"]
  obtain b' m' m'' i where r: "Do (ALC_new ex_ntk 5 2 True (5 / 16)) ex_ntk = (b', m')"
    "Recover b' m' = Inr m''" "objs m'' = objs ex_ntk" "fanins m'' = fanins ex_ntk"
    "inv_node b' = Some i" "i \<in> set (objs m')" "i \<notin> set (objs m'')"
    by blast
  from r(1,5) have i: "i = 7" and m': "m' = ObjReplace (snd (ObjCreateInv ex_ntk 2)) 5 7"
    by (auto simp: Do_def ObjCreateInv_def Let_def new_id_def ex_ntk_def)
  have s1: "fanins m' i = [2]" and s2: "fanins m' 6 = [i]"
    unfolding i m' by (simp_all add: ObjReplace_def ObjCreateInv_def Let_def new_id_def ex_ntk_def)
  have inv: "\<exists>a' n' n'' i. Do (ALC_new ex_ntk 5 2 True (5 / 16)) ex_ntk = (a', n')
         \<and> inv_node a' = Some i \<and> i \<in> set (objs n') \<and> fanins n' i = [2] \<and> fanins n' 6 = [i]
         \<and> Recover a' n' = Inr n''
         \<and> objs n'' = objs ex_ntk \<and> fanins n'' = fanins ex_ntk \<and> i \<notin> set (objs n'')"
    using r s1 s2 by blast
  from ex_ntk_wf d4 d5 plain inv show ?thesis by (intro conjI)
qed

subsection \<open>A fan-out that reads the target twice\<close>

lemma ex_dup_committed_eq:
  "ex_dup_committed = \<lparr>objs = [2, 3, 4, 5, 6, 7],
       fanins = (\<lambda>_. [])(4 := [2, 3], 5 := [4, 3], 6 := [4, 4], 7 := [6]),
       fanouts = (\<lambda>_. [])(2 := [4], 3 := [4, 5], 4 := [5, 6, 6], 6 := [7])\<rparr>"
  by (simp add: ex_dup_committed_def Do_def ObjReplace_def ex_dup_ntk_def ALC_new_def
      snapshot_fan_out_def push_fan_in_def ObjFanouts_def ObjFanins_def fun_eq_iff)

lemma ex_dup_ntk_wf: "ntk_wf ex_dup_ntk"
  unfolding ntk_wf_def
proof (intro conjI allI impI)
  fix v assume "v \<notin> set (objs ex_dup_ntk)"
  then show "fanins ex_dup_ntk v = []" by (simp add: ex_dup_ntk_def)
next
  fix v show "set (fanins ex_dup_ntk v) \<subseteq> set (objs ex_dup_ntk)"
    by (auto simp: ex_dup_ntk_def)
next
  fix f g :: obj
  have "f \<in> {4, 5, 6, 7} \<or> f \<notin> {4, 5, 6, 7}" by blast
  moreover have "g \<in> {2, 3, 4, 5, 6} \<or> g \<notin> {2, 3, 4, 5, 6}" by blast
  ultimately show "count_list (fanouts ex_dup_ntk g) f = count_list (fanins ex_dup_ntk f) g"
    by (auto simp: ex_dup_ntk_def)
qed

lemma ex_dup_committed_wf: "ntk_wf ex_dup_committed"
  unfolding ntk_wf_def
proof (intro conjI allI impI)
  fix v assume "v \<notin> set (objs ex_dup_committed)"
  then show "fanins ex_dup_committed v = []" by (simp add: ex_dup_committed_eq)
next
  fix v show "set (fanins ex_dup_committed v) \<subseteq> set (objs ex_dup_committed)"
    by (auto simp: ex_dup_committed_eq)
next
  fix f g :: obj
  have "f \<in> {4, 5, 6, 7} \<or> f \<notin> {4, 5, 6, 7}" by blast
  moreover have "g \<in> {2, 3, 4, 5, 6} \<or> g \<notin> {2, 3, 4, 5, 6}" by blast
  ultimately show "count_list (fanouts ex_dup_committed g) f = count_list (fanins ex_dup_committed f) g"
    by (auto simp: ex_dup_committed_eq)
qed

text \<open>
  C1.  The claim says that \<^verbatim>\<open>Do\<close> followed by \<^verbatim>\<open>Recover\<close> restores the fan-in list of
  every node.  The code does otherwise for a target that a fan-out reads twice.  In the
  network \<open>ex_dup_committed\<close>, which is consistent (\<open>ex_dup_committed_wf\<close>), the node 6
  has the fan-ins 4 and 4 and the fan-out list of the node 4 is 5, 6, 6.  The
  constructor of the change that replaces the node 4 by the input 2 visits the
  fan-out 6 twice and appends its fan-ins to the saved list each time (lines 95 to
  99), and \<^verbatim>\<open>Recover\<close> gives the node 6 the four fan-ins 4, 4, 4, 4.
\<close>

theorem Do_Recover_doubled_fan_ins:
  "fanins ex_dup_committed 6 = [4, 4] \<and> ObjFanouts ex_dup_committed 4 = [5, 6, 6]
   \<and> map_sum id (\<lambda>n. fanins n 6)
       (Do_Recover (ALC_new ex_dup_committed 4 2 False 0) ex_dup_committed) = Inr [4, 4, 4, 4]"
proof -
  have "map_sum id (\<lambda>n. fanins n 6)
       (Do_Recover (ALC_new ex_dup_committed 4 2 False 0) ex_dup_committed) = Inr [4, 4, 4, 4]"
    unfolding ex_dup_committed_eq
    by (simp add: Do_Recover_def Do_def Recover_def restore_fan_out_def ObjReplace_def
        ALC_new_def snapshot_fan_out_def push_fan_in_def ObjFanouts_def ObjFanins_def
        Abc_ObjAddFanin_def Abc_ObjRemoveFanins_def)
  moreover have "fanins ex_dup_committed 6 = [4, 4]" "ObjFanouts ex_dup_committed 4 = [5, 6, 6]"
    unfolding ex_dup_committed_eq by (simp_all add: ObjFanouts_def)
  ultimately show ?thesis by simp
qed
subsection \<open>The loop of Run\<close>

lemma Run_fuel_sound:
  "Run_fuel n env c err st = Some r \<Longrightarrow> Run_loop env c err st = Some r"
proof (induction n arbitrary: err st)
  case 0
  then show ?case by (subst Run_loop.simps) (simp split: if_splits)
next
  case (Suc n)
  show ?case
  proof (cases "err < c")
    case False
    with Suc.prems show ?thesis by (subst Run_loop.simps) simp
  next
    case True
    show ?thesis
    proof (cases "Run_round env st")
      case (Inl e)
      with Suc.prems True have "r = Inl e" by simp
      then show ?thesis by (subst Run_loop.simps) (simp add: True Inl)
    next
      case (Inr p)
      with Suc.prems True have "Run_fuel n env c (fst p) (snd p) = Some r" by simp
      from Suc.IH [OF this] have "Run_loop env c (fst p) (snd p) = Some r" .
      then show ?thesis by (subst Run_loop.simps) (simp add: True Inr)
    qed
  qed
qed

lemma Run_loop_complete:
  assumes "Run_loop env c err st = Some r"
  shows "(\<exists>n. Run_fuel n env c err st = Some r) \<and> (\<forall>err' st'. r = Inr (err', st') \<longrightarrow> c \<le> err')"
proof (rule Run_loop.raw_induct
    [where P = "\<lambda>env c err st r. (\<exists>n. Run_fuel n env c err st = Some r)
                  \<and> (\<forall>err' st'. r = Inr (err', st') \<longrightarrow> c \<le> err')", OF _ assms])
  fix f :: "'a collab_scheme \<Rightarrow> rat \<Rightarrow> rat \<Rightarrow> dals \<Rightarrow> (error + rat \<times> dals) option"
  fix env c err st r
  assume IH: "\<And>env c err st r. f env c err st = Some r \<Longrightarrow>
      (\<exists>n. Run_fuel n env c err st = Some r) \<and> (\<forall>err' st'. r = Inr (err', st') \<longrightarrow> c \<le> err')"
  assume eq: "(if err < c
      then case Run_round env st of Inl e \<Rightarrow> Some (Inl e) | Inr p \<Rightarrow> f env c (fst p) (snd p)
      else Some (Inr (err, st))) = Some r"
  show "(\<exists>n. Run_fuel n env c err st = Some r) \<and> (\<forall>err' st'. r = Inr (err', st') \<longrightarrow> c \<le> err')"
  proof (cases "err < c")
    case False
    with eq have r: "r = Inr (err, st)" by simp
    with False have "Run_fuel 0 env c err st = Some r" by simp
    then have "\<exists>n. Run_fuel n env c err st = Some r" by (rule exI)
    with r False show ?thesis by (simp add: not_less)
  next
    case True
    show ?thesis
    proof (cases "Run_round env st")
      case (Inl e)
      with eq True have r: "r = Inl e" by simp
      with Inl True have "Run_fuel (Suc 0) env c err st = Some r" by simp
      then have "\<exists>n. Run_fuel n env c err st = Some r" by (rule exI)
      with r show ?thesis by simp
    next
      case (Inr p)
      with eq True have "f env c (fst p) (snd p) = Some r" by simp
      from IH [OF this] obtain n where n: "Run_fuel n env c (fst p) (snd p) = Some r"
        and b: "\<forall>err' st'. r = Inr (err', st') \<longrightarrow> c \<le> err'"
        by (elim conjE exE)
      from n Inr True have "Run_fuel (Suc n) env c err st = Some r" by simp
      then have "\<exists>n. Run_fuel n env c err st = Some r" by (rule exI)
      with b show ?thesis by simp
    qed
  qed
qed

lemma Run_loop_no_progress:
  assumes "err < c" and "Run_round env st = Inr (err, st)"
  shows "Run_loop env c err st = None"
proof (rule ccontr)
  assume "Run_loop env c err st \<noteq> None"
  then obtain r where "Run_loop env c err st = Some r" by auto
  from Run_loop_complete [OF this] obtain n where "Run_fuel n env c err st = Some r"
    by blast
  moreover have "Run_fuel n env c err st = None" for n
    using assms by (induction n) simp_all
  ultimately show False by simp
qed

lemma ex2_round: "Run_round ex2_env ex2_dals = Inr (0, ex2_dals)"
  by (simp add: Run_round_def ex2_env_def ex2_dals_def collect_slack_0_def CalcALCs_def
      flow_arcs_def add_node_arcs_def node_arcs_def critical_arcs_def Let_def)

text \<open>
  C6, as amended.  The loop of \<^verbatim>\<open>Run\<close> has one exit, its test
  \<^verbatim>\<open>err < err_constraint\<close>: \<^verbatim>\<open>Run\<close> returns exactly when, after some number of
  rounds, the error rate has reached \<^verbatim>\<open>err_constraint\<close> (or an access has failed),
  and the error rate it returns with is at least \<^verbatim>\<open>err_constraint\<close>.  Nothing
  detects a round without progress: when a round returns the state and the error rate
  it started from, below the constraint, \<^verbatim>\<open>Run\<close> never returns.
\<close>

theorem Run_loop_exits:
  "(Run_loop env c err st = Some r \<longleftrightarrow> (\<exists>n. Run_fuel n env c err st = Some r))
   \<and> (Run_loop env c err st = Some (Inr (err', st')) \<longrightarrow> c \<le> err')
   \<and> (err < c \<and> Run_round env st = Inr (err, st) \<longrightarrow> Run_loop env c err st = None)"
proof (intro conjI impI iffI)
  assume "Run_loop env c err st = Some r"
  from Run_loop_complete [OF this] show "\<exists>n. Run_fuel n env c err st = Some r" by simp
next
  assume "\<exists>n. Run_fuel n env c err st = Some r"
  then show "Run_loop env c err st = Some r"
    using Run_fuel_sound by blast
next
  assume "Run_loop env c err st = Some (Inr (err', st'))"
  from Run_loop_complete [OF this] show "c \<le> err'" by simp
next
  assume "err < c \<and> Run_round env st = Inr (err, st)"
  then show "Run_loop env c err st = None"
    using Run_loop_no_progress by blast
qed

theorem Run_loop_exits_witness:
  "Run_loop ex2_env 0 0 ex2_dals = Some (Inr (0, ex2_dals))
   \<and> Run_fuel 0 ex2_env 0 0 ex2_dals = Some (Inr (0, ex2_dals))
   \<and> Run_loop ex2_env (1 / 20) 0 ex2_dals = None"
proof -
  note t = Run_loop_exits [of ex2_env _ 0 ex2_dals]
  have f: "Run_fuel 0 ex2_env 0 0 ex2_dals = Some (Inr (0, ex2_dals))" by simp
  then have "\<exists>n. Run_fuel n ex2_env 0 0 ex2_dals = Some (Inr (0, ex2_dals))" by (rule exI)
  with t [of 0 "Inr (0, ex2_dals)"] have a: "Run_loop ex2_env 0 0 ex2_dals = Some (Inr (0, ex2_dals))"
    by simp
  from t [of "1 / 20"] ex2_round have b: "Run_loop ex2_env (1 / 20) 0 ex2_dals = None"
    by simp
  from a f b show ?thesis by (intro conjI)
qed

text \<open>
  The claim as stated fails: on the second example a round changes neither the state nor
  the error rate, and \<^verbatim>\<open>Run\<close> with the constraint 0.05 does not return.
\<close>

theorem Run_no_progress_counterexample:
  "Run_round ex2_env ex2_dals = Inr (0, ex2_dals) \<and> Run ex2_env (1 / 20) ex2_dals = None"
proof -
  have "(0 :: rat) < 1 / 20" by simp
  from Run_loop_no_progress [OF this ex2_round] ex2_round show ?thesis
    by (simp add: Run_def)
qed

subsection \<open>The arcs of the flow graph\<close>

lemma add_node_arcs_fold:
  assumes "foldM_err (add_node_arcs env st N) vs acc = Inr arcs"
  shows "set acc \<subseteq> set arcs
     \<and> (\<forall>v \<in> set vs. \<exists>new. node_arcs env st N v = Inr new \<and> set new \<subseteq> set arcs)"
  using assms
proof (induction vs arbitrary: acc)
  case Nil
  then show ?case by simp
next
  case (Cons u us)
  from Cons.prems obtain acc1 where s1: "add_node_arcs env st N u acc = Inr acc1"
    and rest1: "foldM_err (add_node_arcs env st N) us acc1 = Inr arcs"
    by (auto split: sum.splits)
  from s1 obtain new where n: "node_arcs env st N u = Inr new" and acc1: "acc1 = acc @ new"
    by (auto simp: add_node_arcs_def split: sum.splits)
  from rest1 acc1 have rest: "foldM_err (add_node_arcs env st N) us (acc @ new) = Inr arcs"
    by simp
  from Cons.IH [OF rest] have ih: "set (acc @ new) \<subseteq> set arcs"
    "\<forall>v \<in> set us. \<exists>new. node_arcs env st N v = Inr new \<and> set new \<subseteq> set arcs"
    by simp_all
  from ih(1) have "set acc \<subseteq> set arcs" "set new \<subseteq> set arcs" by simp_all
  with n ih(2) show ?case by simp
qed

lemma pos_ratio_above_DBL_MIN:
  fixes k n :: int
  assumes "0 < n" and "n \<le> INT_MAX" and "0 < (of_int k :: rat) / of_int n"
  shows "DBL_MIN < of_int k / of_int n"
proof -
  have pos: "(0 :: rat) < of_int n" using assms(1) by simp
  with assms(3) have "(0 :: rat) < of_int k" by (simp add: zero_less_divide_iff)
  then have "1 \<le> k" by simp
  then have k1: "(1 :: rat) \<le> of_int k" by simp
  have "(of_int n :: rat) \<le> of_int INT_MAX"
    using assms(2) by (simp only: of_int_le_iff)
  also have "\<dots> < 2 ^ 31" by (simp add: INT_MAX_def)
  also have "(2 :: rat) ^ 31 < 2 ^ 1022" by (rule power_strict_increasing) simp_all
  finally have up: "(of_int n :: rat) < 2 ^ 1022" .
  have "DBL_MIN < 1 / of_int n"
    unfolding DBL_MIN_def using up pos by (simp add: frac_less2)
  also have "\<dots> \<le> of_int k / of_int n"
    using k1 pos by (simp add: divide_le_cancel)
  finally show ?thesis .
qed

lemma is_rate_above: "is_rate e \<Longrightarrow> 0 < e \<Longrightarrow> DBL_MIN < e"
  unfolding is_rate_def using pos_ratio_above_DBL_MIN by blast

lemma EstSubPairError_form:
  assumes "EstSubPairError st t s = Inr est"
  shows "est = 0 \<or> (\<exists>c n :: int. 0 < n \<and> n \<le> INT_MAX \<and> est = of_int c / of_int n)"
proof -
  let ?W = "sim_64_cycles st"
  from assms obtain c where
    c: "err_cnt_loop (truth_vec st t) (truth_vec st s) [0..<nat ?W] 0 = Inr c"
    and b: "64 * ?W \<le> INT_MAX" and e: "est = of_int c / of_int (64 * ?W)"
    by (auto simp: EstSubPairError_def split: sum.splits if_splits)
  show ?thesis
  proof (cases "0 < ?W")
    case True
    then have "0 < 64 * ?W" by simp
    with b e show ?thesis by blast
  next
    case False
    then have "nat ?W = 0" by simp
    with c have "c = 0" by simp
    with e show ?thesis by simp
  qed
qed

lemma stored_error_above:
  assumes "cand_ok ti st t a" and "0 < GetError a"
  shows "DBL_MIN < GetError a"
proof -
  from assms(1) obtain est where e: "EstSubPairError st t (GetSubstitute a) = Inr est"
    and g: "GetError a = est \<or> GetError a = 1 - est"
    unfolding cand_ok_def by (auto simp: min_def split: if_splits)
  from EstSubPairError_form [OF e] show ?thesis
  proof
    assume z: "est = 0"
    with g assms(2) have "GetError a = 1" by auto
    moreover have "DBL_MIN < 1"
      using pos_ratio_above_DBL_MIN [of 1 1] by (simp add: INT_MAX_def)
    ultimately show ?thesis by simp
  next
    assume "\<exists>c n :: int. 0 < n \<and> n \<le> INT_MAX \<and> est = of_int c / of_int n"
    then obtain c n :: int where n: "0 < n" "n \<le> INT_MAX" and est: "est = of_int c / of_int n"
      by blast
    from n(1) have "1 - est = of_int (n - c) / of_int n"
      unfolding est by (simp add: diff_divide_distrib)
    with g est have "GetError a = of_int c / of_int n \<or> GetError a = of_int (n - c) / of_int n"
      by simp
    then show ?thesis
    proof
      assume h: "GetError a = of_int c / of_int n"
      with assms(2) pos_ratio_above_DBL_MIN [OF n, of c] show ?thesis by simp
    next
      assume h: "GetError a = of_int (n - c) / of_int n"
      with assms(2) pos_ratio_above_DBL_MIN [OF n, of "n - c"] show ?thesis by simp
    qed
  qed
qed


lemma refine_loop_rates:
  assumes "refine_loop env k cs ks st = Inr (ks', st')"
    and "\<forall>tgt apx. is_rate (SimER env tgt apx)"
    and "\<forall>a \<in> set ks. is_rate (GetError a)"
  shows "\<forall>a \<in> set ks'. is_rate (GetError a)"
  using assms
proof (induction env k cs ks st rule: refine_loop.induct)
  case (1 env top_k k_alcs st)
  then show ?case by simp
next
  case (2 env top_k alc rest k_alcs st)
  show ?case
  proof (cases "length k_alcs = top_k")
    case True
    with "2.prems" show ?thesis by simp
  next
    case False
    obtain alc1 n1 where d: "Do alc (approx_ntk st) = (alc1, n1)"
      by (cases "Do alc (approx_ntk st)")
    with "2.prems"(1) False obtain n2 where
      r: "Recover (SetError alc1 (SimER env (target_ntk st) n1)) n1 = Inr n2"
      and l: "refine_loop env top_k rest (k_alcs @ [SetError alc1 (SimER env (target_ntk st) n1)])
                (st\<lparr>approx_ntk := n2\<rparr>) = Inr (ks', st')"
      by (auto split: sum.splits)
    have "is_rate (GetError (SetError alc1 (SimER env (target_ntk st) n1)))"
      using "2.prems"(2) by (simp add: SetError_def)
    with "2.prems"(3)
    have "\<forall>a \<in> set (k_alcs @ [SetError alc1 (SimER env (target_ntk st) n1)]). is_rate (GetError a)"
      by simp
    from "2.IH" [OF False d [symmetric] r l "2.prems"(2) this] show ?thesis .
  qed
qed

lemma calc_opt_rates:
  assumes "calc_opt env k t st = Inr st'"
    and "\<forall>tgt apx. is_rate (SimER env tgt apx)"
    and "\<forall>u b. opt_alc st u = Some b \<longrightarrow> is_rate (GetError b)"
  shows "\<forall>u b. opt_alc st' u = Some b \<longrightarrow> is_rate (GetError b)"
proof -
  from assms(1) obtain ks st1 where r: "refine_loop env k (cand_list st t) [] st = Inr (ks, st1)"
    and e: "emplace_opt st1 t (std_sort env ks) = Inr st'"
    by (auto simp: calc_opt_def split: sum.splits)
  from refine_loop_frame [OF r] have o: "opt_alc st1 = opt_alc st" by simp
  from refine_loop_rates [OF r assms(2)] have "\<forall>a \<in> set ks. is_rate (GetError a)" by simp
  moreover have "set (std_sort env ks) = set ks"
    using std_sort_mset [of env ks] by (rule mset_eq_setD)
  ultimately have k: "\<forall>a \<in> set (std_sort env ks). is_rate (GetError a)" by simp
  show ?thesis
  proof (intro allI impI)
    fix u b assume h: "opt_alc st' u = Some b"
    from e obtain front tl where f: "std_sort env ks = front # tl"
      by (cases "std_sort env ks") (simp_all add: emplace_opt_def)
    with k have fr: "is_rate (GetError front)" by simp
    from e f have "opt_alc st' = opt_alc st1 \<or> opt_alc st' = (opt_alc st1)(t \<mapsto> front)"
      by (auto simp: emplace_opt_def split: option.splits)
    with h o have "opt_alc st u = Some b \<or> b = front"
      by (auto split: if_splits)
    with assms(3) fr show "is_rate (GetError b)" by blast
  qed
qed

lemma opt_loop_rates:
  assumes "foldM_err (calc_opt env k) ts st = Inr st'"
    and "\<forall>tgt apx. is_rate (SimER env tgt apx)"
    and "\<forall>u b. opt_alc st u = Some b \<longrightarrow> is_rate (GetError b)"
  shows "\<forall>u b. opt_alc st' u = Some b \<longrightarrow> is_rate (GetError b)"
  using assms
proof (induction ts arbitrary: st)
  case Nil
  then show ?case by simp
next
  case (Cons t ts)
  from Cons.prems(1) obtain st1 where s1: "calc_opt env k t st = Inr st1"
    and rest: "foldM_err (calc_opt env k) ts st1 = Inr st'"
    by (auto split: sum.splits)
  from calc_opt_rates [OF s1 Cons.prems(2,3)]
  have "\<forall>u b. opt_alc st1 u = Some b \<longrightarrow> is_rate (GetError b)" .
  from Cons.IH [OF rest Cons.prems(2) this] show ?case .
qed

lemma CalcALCs_rates:
  assumes "CalcALCs env ts k st = Inr st'"
    and "\<forall>tgt apx. is_rate (SimER env tgt apx)"
    and "\<forall>u b. opt_alc st u = Some b \<longrightarrow> is_rate (GetError b)"
  shows "\<forall>u b. opt_alc st' u = Some b \<longrightarrow> is_rate (GetError b)"
proof -
  let ?ti = "CalcSlack env (approx_ntk st)"
  let ?ss = "NtkTopoSortPINode env (approx_ntk st)"
  from assms(1) obtain st3 st4 where
    o3: "opt_alc st3 = opt_alc st"
    and e3: "\<forall>t. cand_list st3 t = []"
    and p2: "foldM_err (calc_cands env ?ti ?ss k) ts st3 = Inr st4"
    and p3: "foldM_err (calc_opt env k) ts st4 = Inr st'"
    by (rule CalcALCs_phases)
  have "all_ok ?ti ?ss st3"
    using e3 by (simp add: all_ok_def)
  with p2 have "same_frame st3 st4"
    using t_loop_all_ok by blast
  with o3 have "opt_alc st4 = opt_alc st" by (simp add: same_frame_def)
  with assms(3) have "\<forall>u b. opt_alc st4 u = Some b \<longrightarrow> is_rate (GetError b)" by simp
  from opt_loop_rates [OF p3 assms(2) this] show ?thesis .
qed

lemma node_arcs_filter:
  assumes "node_arcs env st N u = Inr new" and "0 < v" and "v < N"
    and "\<not> ObjIsPI env (approx_ntk st) v" and "opt_alc st v = Some a"
  shows "filter (\<lambda>e. fst e = v \<and> fst (snd e) = v + N) new
           = (if u = v then [(v, v + N, if GetError a = 0 then DBL_MIN else GetError a)] else [])"
proof (cases "ObjIsPI env (approx_ntk st) u")
  case True
  with assms(1) have "new = [(0, u, DBL_MAX)]" by (simp add: node_arcs_def)
  moreover from True assms(4) have "u \<noteq> v" by auto
  ultimately show ?thesis using assms(2) by simp
next
  case False
  show ?thesis
  proof (cases "u = v")
    case True
    with assms(1,4,5) have "new = (if GetError a = 0 then [(v, v + N, DBL_MIN)]
          else [(v, v + N, GetError a)])
        @ (if ObjIsPONode env (approx_ntk st) v then [(v + N, N - 1, DBL_MAX)] else [])"
      by (simp add: node_arcs_def)
    with True assms(3) show ?thesis by simp
  next
    case ne: False
    from assms(1) False obtain b where "opt_alc st u = Some b"
      by (auto simp: node_arcs_def split: option.splits)
    with assms(1) False have "new = (if GetError b = 0 then [(u, u + N, DBL_MIN)]
          else [(u, u + N, GetError b)])
        @ (if ObjIsPONode env (approx_ntk st) u then [(u + N, N - 1, DBL_MAX)] else [])"
      by (simp add: node_arcs_def)
    with ne assms(3) show ?thesis by simp
  qed
qed

lemma add_node_arcs_filter:
  assumes "foldM_err (add_node_arcs env st N) us acc = Inr arcs" and "distinct us"
    and "0 < v" and "v < N" and "\<not> ObjIsPI env (approx_ntk st) v" and "opt_alc st v = Some a"
  shows "filter (\<lambda>e. fst e = v \<and> fst (snd e) = v + N) arcs
           = filter (\<lambda>e. fst e = v \<and> fst (snd e) = v + N) acc
             @ (if v \<in> set us then [(v, v + N, if GetError a = 0 then DBL_MIN else GetError a)]
                else [])"
  using assms(1,2)
proof (induction us arbitrary: acc)
  case Nil
  then show ?case by simp
next
  case (Cons u us)
  from Cons.prems(1) obtain acc1 where s1: "add_node_arcs env st N u acc = Inr acc1"
    and rest1: "foldM_err (add_node_arcs env st N) us acc1 = Inr arcs"
    by (auto split: sum.splits)
  from s1 obtain new where n: "node_arcs env st N u = Inr new" and acc1: "acc1 = acc @ new"
    by (auto simp: add_node_arcs_def split: sum.splits)
  from rest1 acc1 have rest: "foldM_err (add_node_arcs env st N) us (acc @ new) = Inr arcs"
    by simp
  from Cons.prems(2) have d: "distinct us" and nu: "u \<notin> set us" by simp_all
  note f = node_arcs_filter [OF n assms(3-6)]
  from Cons.IH [OF rest d] f nu show ?case by auto
qed

lemma critical_arcs_filter:
  assumes "v < N" and "\<not> ObjIsPI env n v"
  shows "filter (\<lambda>e. fst e = v \<and> fst (snd e) = v + N) (critical_arcs env n N) = []"
proof -
  have "\<forall>e \<in> set (critical_arcs env n N). fst e \<noteq> v"
    using assms by (auto simp: critical_arcs_def)
  then show ?thesis by (simp add: filter_empty_conv)
qed

lemma Do_keeps_error: "Do a n = (a', n') \<Longrightarrow> GetError a' = GetError a"
  by (auto simp: Do_def split: if_splits prod.splits)

lemma apply_cut_rates:
  assumes "foldM_err apply_cut ws st = Inr st'"
    and "\<forall>u b. opt_alc st u = Some b \<longrightarrow> is_rate (GetError b)"
  shows "\<forall>u b. opt_alc st' u = Some b \<longrightarrow> is_rate (GetError b)"
  using assms
proof (induction ws arbitrary: st)
  case Nil
  then show ?case by simp
next
  case (Cons w ws)
  from Cons.prems(1) obtain st1 where s1: "apply_cut w st = Inr st1"
    and rest: "foldM_err apply_cut ws st1 = Inr st'"
    by (auto split: sum.splits)
  from s1 obtain a a' n' where a: "opt_alc st w = Some a" and d: "Do a (approx_ntk st) = (a', n')"
    and o: "opt_alc st1 = (opt_alc st)(w \<mapsto> a')"
    by (auto simp: apply_cut_def split: option.splits prod.splits)
  from a Cons.prems(2) Do_keeps_error [OF d] have "is_rate (GetError a')" by simp
  with o Cons.prems(2) have "\<forall>u b. opt_alc st1 u = Some b \<longrightarrow> is_rate (GetError b)"
    by simp
  from Cons.IH [OF rest this] show ?case .
qed

text \<open>
  A round keeps the errors of \<^verbatim>\<open>opt_alc_\<close> error rates: the map of every round of
  \<^verbatim>\<open>Run\<close> holds error rates when the map of the first does.
\<close>

lemma Run_round_rates:
  assumes "Run_round env st = Inr (err, st')"
    and "\<forall>tgt apx. is_rate (SimER env tgt apx)"
    and "\<forall>u b. opt_alc st u = Some b \<longrightarrow> is_rate (GetError b)"
  shows "\<forall>u b. opt_alc st' u = Some b \<longrightarrow> is_rate (GetError b)"
proof -
  from assms(1) obtain nodes st1 ws where c: "CalcALCs env nodes 3 st = Inr st1"
    and f: "foldM_err apply_cut ws st1 = Inr st'"
    by (auto simp: Run_round_def Let_def split: sum.splits)
  from CalcALCs_rates [OF c assms(2,3)] have "\<forall>u b. opt_alc st1 u = Some b \<longrightarrow> is_rate (GetError b)" .
  from apply_cut_rates [OF f this] show ?thesis .
qed

lemma ex_SimER_rate: "is_rate (ex_SimER tgt apx)"
proof -
  have "is_rate 0" unfolding is_rate_def
    by (intro exI [of _ 0] exI [of _ 1]) (simp add: INT_MAX_def)
  moreover have "is_rate (1 / 4)" unfolding is_rate_def
    by (intro exI [of _ 1] exI [of _ 4]) (simp add: INT_MAX_def)
  moreover have "is_rate (5 / 16)" unfolding is_rate_def
    by (intro exI [of _ 5] exI [of _ 16]) (simp add: INT_MAX_def)
  ultimately show ?thesis by (simp add: ex_SimER_def)
qed

text \<open>
  C7, as amended.  In the flow graph of a round, built after \<^verbatim>\<open>CalcALCs\<close>, every
  object \<open>v\<close> of slack 0 that is not a primary input has exactly one arc from \<open>v\<close> to
  \<open>v + N\<close>; its capacity is the error of \<^verbatim>\<open>opt_alc_[v]\<close> when that error is strictly
  positive, and \<^verbatim>\<open>std::numeric_limits<double>::min()\<close> otherwise.  That value,
  \<open>2 ^ -1022\<close>, is positive, below \<^verbatim>\<open>std::numeric_limits<double>::max()\<close>, and strictly
  below every strictly positive error of the round: the errors held in \<^verbatim>\<open>opt_alc_\<close>
  and the errors stored in the candidates of \<^verbatim>\<open>cand_alcs_\<close>.  It is the smallest
  positive normal double, not the smallest positive double.  The errors of \<^verbatim>\<open>opt_alc_\<close>
  are results of \<^verbatim>\<open>SimER\<close>, a number of samples out of the simulated ones; this is
  assumed of \<^verbatim>\<open>SimER\<close> and of the entries that the map holds when the round begins
  (none in the first round, those of the earlier rounds afterwards).
\<close>

theorem flow_arcs_node_capacity:
  assumes "CalcALCs env target_nodes top_k st = Inr st1"
    and "flow_arcs env st1 N pis_nodes_0 = Inr arcs"
    and "\<forall>tgt apx. is_rate (SimER env tgt apx)"
    and "\<forall>u b. opt_alc st u = Some b \<longrightarrow> is_rate (GetError b)"
    and "distinct pis_nodes_0" and "v \<in> set pis_nodes_0" and "0 < v" and "v < N"
    and "\<not> ObjIsPI env (approx_ntk st1) v"
  shows "\<exists>a. opt_alc st1 v = Some a
         \<and> filter (\<lambda>e. fst e = v \<and> fst (snd e) = v + N) arcs
             = [(v, v + N, if 0 < GetError a then GetError a else DBL_MIN)]
         \<and> 0 < DBL_MIN \<and> DBL_MIN < DBL_MAX
         \<and> (\<forall>u b. opt_alc st1 u = Some b \<and> 0 < GetError b \<longrightarrow> DBL_MIN < GetError b)
         \<and> (\<forall>t l c. cand_alcs st1 t = Some l \<and> c \<in> set l \<and> 0 < GetError c
               \<longrightarrow> DBL_MIN < GetError c)"
proof -
  from assms(2) obtain arcs1 where
    f: "foldM_err (add_node_arcs env st1 N) pis_nodes_0 [] = Inr arcs1"
    and a: "arcs = arcs1 @ critical_arcs env (approx_ntk st1) N"
    by (auto simp: flow_arcs_def split: sum.splits)
  from add_node_arcs_fold [OF f] assms(6) obtain new where
    n: "node_arcs env st1 N v = Inr new"
    by blast
  from n assms(9) obtain al where o: "opt_alc st1 v = Some al"
    by (auto simp: node_arcs_def split: option.splits)
  note rates = CalcALCs_rates [OF assms(1,3,4)]
  from rates o have "is_rate (GetError al)" by blast
  then have nonneg: "0 \<le> GetError al"
    by (auto simp: is_rate_def)
  have "filter (\<lambda>e. fst e = v \<and> fst (snd e) = v + N) arcs
      = [(v, v + N, if GetError al = 0 then DBL_MIN else GetError al)]"
    unfolding a
    using add_node_arcs_filter [OF f assms(5,7,8,9) o] critical_arcs_filter [OF assms(8,9)] assms(6)
    by simp
  moreover have "(if GetError al = 0 then DBL_MIN else GetError al)
      = (if 0 < GetError al then GetError al else DBL_MIN)"
    using nonneg by auto
  ultimately have one: "filter (\<lambda>e. fst e = v \<and> fst (snd e) = v + N) arcs
      = [(v, v + N, if 0 < GetError al then GetError al else DBL_MIN)]"
    by simp
  have p: "0 < DBL_MIN" by (simp add: DBL_MIN_def)
  have "DBL_MIN < 1"
    using pos_ratio_above_DBL_MIN [of 1 1] by (simp add: INT_MAX_def)
  also have "(1 :: rat) \<le> (2 ^ 53 - 1) * 1" by simp
  also have "\<dots> \<le> (2 ^ 53 - 1) * 2 ^ 971"
    by (intro mult_left_mono) simp_all
  finally have q: "DBL_MIN < DBL_MAX" by (simp add: DBL_MAX_def)
  have r: "\<forall>u b. opt_alc st1 u = Some b \<and> 0 < GetError b \<longrightarrow> DBL_MIN < GetError b"
    using rates is_rate_above by blast
  have c: "\<forall>t l c. cand_alcs st1 t = Some l \<and> c \<in> set l \<and> 0 < GetError c \<longrightarrow> DBL_MIN < GetError c"
  proof (intro allI impI)
    fix t l c assume h: "cand_alcs st1 t = Some l \<and> c \<in> set l \<and> 0 < GetError c"
    then have "c \<in> set (cand_list st1 t)" by (simp add: cand_list_def)
    with assms(1) have "cand_ok (CalcSlack env (approx_ntk st)) st1 t c"
      using CalcALCs_cand_ok by blast
    with h show "DBL_MIN < GetError c" by (simp add: stored_error_above)
  qed
  from o one p q r c show ?thesis by blast
qed

theorem flow_arcs_node_capacity_witness:
  "\<exists>st1 arcs a. CalcALCs ex_env [4, 5] 2 ex_dals = Inr st1
     \<and> flow_arcs ex_env st1 8 [2, 3, 4, 5] = Inr arcs
     \<and> opt_alc st1 4 = Some a \<and> GetError a = 0
     \<and> filter (\<lambda>e. fst e = 4 \<and> fst (snd e) = 12) arcs = [(4, 12, DBL_MIN)]
     \<and> opt_alc st1 5 = Some ex_stale \<and> GetError ex_stale = 1 / 4 \<and> DBL_MIN < 1 / 4"
proof -
  obtain st1 where s: "CalcALCs ex_env [4, 5] 2 ex_dals = Inr st1"
    "opt_alc st1 5 = Some ex_stale"
    "map_option cand_triple (opt_alc st1 4) = Some (0, False, 2)"
    by (rule ex_CalcALCs_result)
  from s(3) obtain a where a: "opt_alc st1 4 = Some a" "GetError a = 0"
    by (auto simp: cand_triple_def)
  from s(1) ex_flow_arcs obtain arcs where f: "flow_arcs ex_env st1 8 [2, 3, 4, 5] = Inr arcs"
    by (simp add: ex_flow_def)
  have c: "\<forall>tgt apx. is_rate (SimER ex_env tgt apx)"
    using ex_SimER_rate by (simp add: ex_env_def)
  have "is_rate (1 / 4)" unfolding is_rate_def
    by (intro exI [of _ 1] exI [of _ 4]) (simp add: INT_MAX_def)
  then have i: "\<forall>u b. opt_alc ex_dals u = Some b \<longrightarrow> is_rate (GetError b)"
    by (simp add: ex_dals_def ex_stale_def)
  have d: "distinct [2, 3, 4, 5 :: obj]" and m: "4 \<in> set [2, 3, 4, 5 :: obj]"
    and z: "0 < (4 :: obj)" and l: "(4 :: obj) < 8"
    and pi: "\<not> ObjIsPI ex_env (approx_ntk st1) 4"
    by (simp_all add: ex_env_def)
  from flow_arcs_node_capacity [OF s(1) f c i d m z l pi]
  obtain a' where w: "opt_alc st1 4 = Some a'"
    "filter (\<lambda>e. fst e = 4 \<and> fst (snd e) = 4 + 8) arcs
       = [(4, 4 + 8, if 0 < GetError a' then GetError a' else DBL_MIN)]"
    "\<forall>u b. opt_alc st1 u = Some b \<and> 0 < GetError b \<longrightarrow> DBL_MIN < GetError b"
    by (elim exE conjE)
  from w(1) a have "a' = a" by simp
  with w(2) a(2) have one: "filter (\<lambda>e. fst e = 4 \<and> fst (snd e) = 12) arcs = [(4, 12, DBL_MIN)]"
    by simp
  have g: "GetError ex_stale = 1 / 4" by (simp add: ex_stale_def)
  from w(3) have "opt_alc st1 5 = Some ex_stale \<and> 0 < GetError ex_stale
      \<longrightarrow> DBL_MIN < GetError ex_stale"
    by blast
  with s(2) g have "DBL_MIN < 1 / 4" by simp
  with s(1,2) f a one g show ?thesis
    by (intro exI [of _ st1] exI [of _ arcs] exI [of _ a]) simp
qed

text \<open>
  The claim as stated fails: the arc of the node 4 of the example, whose error is 0, has
  the capacity \<^verbatim>\<open>std::numeric_limits<double>::min()\<close>, the double \<open>2 ^ 52 * 2 ^ -1074\<close>,
  and the double \<open>1 * 2 ^ -1074\<close> is positive and smaller.
\<close>

theorem flow_arcs_sentinel_counterexample:
  "ex_flow = Inr [(0, 2, DBL_MAX), (0, 3, DBL_MAX), (4, 12, DBL_MIN), (5, 13, 1 / 4),
      (13, 7, DBL_MAX), (2, 4, DBL_MAX), (3, 4, DBL_MAX), (12, 5, DBL_MAX)]
   \<and> binary64 1 (- 1074) \<and> 0 < binary64_value 1 (- 1074)
   \<and> binary64_value 1 (- 1074) < DBL_MIN
   \<and> DBL_MIN = binary64_value (2 ^ 52) (- 1074) \<and> binary64 (2 ^ 52) (- 1074)"
proof -
  have "(2 :: rat) ^ 1022 < 2 ^ 1074" by (rule power_strict_increasing) simp_all
  then have "binary64_value 1 (- 1074) < DBL_MIN"
    by (simp add: binary64_value_def DBL_MIN_def frac_less2)
  moreover have "(2 :: rat) ^ 1074 = 2 ^ 52 * 2 ^ 1022"
    by (simp only: power_add [symmetric]) simp
  then have "DBL_MIN = binary64_value (2 ^ 52) (- 1074)"
    by (simp add: binary64_value_def DBL_MIN_def)
  ultimately show ?thesis
    using ex_flow_arcs by (simp add: binary64_def binary64_value_def)
qed
end
